theory Spec2Isabelle
  imports Main "HOL-Library.Char_ord" "HOL-Library.List_Lexorder"
begin

section \<open>JavaScript values\<close>

text \<open>
  The object utilities of linguify (\<^verbatim>\<open>flatten\<close>, \<^verbatim>\<open>unflatten\<close>, \<^verbatim>\<open>clear\<close>, \<^verbatim>\<open>sort\<close>,
  \<^verbatim>\<open>isAssignable\<close>) work on JSON-like data: \<^verbatim>\<open>null\<close>, booleans, numbers, strings, arrays
  and plain objects. An object and an array are both given by their own enumerable
  properties, listed in JavaScript's enumeration order; the array \<^verbatim>\<open>[x, y]\<close> has the
  properties \<^verbatim>\<open>"0"\<close> and \<^verbatim>\<open>"1"\<close>. Numbers are only ever copied and tested for truthiness, so
  an integer stands for them. Strings are byte strings.

  A read \<^verbatim>\<open>o[k]\<close> is modelled as the read of an own property and a write \<^verbatim>\<open>o[k] = v\<close> as
  the creation or the update of one. JavaScript does the same unless \<^verbatim>\<open>k\<close> is the name of
  a member of \<^verbatim>\<open>Object.prototype\<close> (\<open>object_prototype_names\<close>): a read of such a key that is
  not an own property finds the inherited member, and a write to \<^verbatim>\<open>__proto__\<close> goes to the
  inherited setter. The prototype chain is outside the embedding, except for the one
  inherited member that the code calls, \<^verbatim>\<open>hasOwnProperty\<close>; the theorems on functions that
  read or write properties by key assume that the keys are plain (\<open>plain_key\<close>). Also
  outside the embedding: arrays with holes, the assignment to the \<^verbatim>\<open>length\<close> of an array,
  and values shared between two places of one input (inputs are trees).
\<close>

type_synonym 'v props = "(string \<times> 'v) list"

datatype jsval =
    Null
  | Bool bool
  | Num int
  | Str string
  | Arr "(string \<times> jsval) list"
  | Obj "(string \<times> jsval) list"

datatype error = InvalidArgument | TypeError

text \<open>\<^verbatim>\<open>typeof v == 'object'\<close>: true of \<^verbatim>\<open>null\<close>, of arrays and of objects.\<close>

fun typeof_object :: "jsval \<Rightarrow> bool" where
  "typeof_object Null = True"
| "typeof_object (Arr ps) = True"
| "typeof_object (Obj ps) = True"
| "typeof_object v = False"

text \<open>lodash's \<^verbatim>\<open>_.isObject\<close>: not \<^verbatim>\<open>null\<close>, and of type object (or function).\<close>

fun isObject :: "jsval \<Rightarrow> bool" where
  "isObject (Arr ps) = True"
| "isObject (Obj ps) = True"
| "isObject v = False"

text \<open>Truthiness, as \<^verbatim>\<open>||\<close> tests it.\<close>

fun truthy :: "jsval \<Rightarrow> bool" where
  "truthy Null = False"
| "truthy (Bool b) = b"
| "truthy (Num n) = (n \<noteq> 0)"
| "truthy (Str s) = (s \<noteq> [])"
| "truthy (Arr ps) = True"
| "truthy (Obj ps) = True"

text \<open>The own enumerable properties, in enumeration order (none for a primitive).\<close>

fun props :: "jsval \<Rightarrow> jsval props" where
  "props (Arr ps) = ps"
| "props (Obj ps) = ps"
| "props v = []"

text \<open>The names of the members of \<^verbatim>\<open>Object.prototype\<close>, which every plain object inherits.\<close>

definition object_prototype_names :: "string list" where
  "object_prototype_names =
     [''constructor'', ''__defineGetter__'', ''__defineSetter__'', ''hasOwnProperty'',
      ''__lookupGetter__'', ''__lookupSetter__'', ''isPrototypeOf'', ''propertyIsEnumerable'',
      ''toString'', ''valueOf'', ''__proto__'', ''toLocaleString'']"

definition plain_key :: "string \<Rightarrow> bool" where
  "plain_key k = (k \<notin> set object_prototype_names)"

subsection \<open>Property order\<close>

text \<open>
  An object enumerates its array-index keys first, in ascending numeric order, then its
  other string keys in the order of their creation. An array index is the canonical
  decimal numeral of a number below \<open>2^32 - 1\<close>.
\<close>

definition is_digit :: "char \<Rightarrow> bool" where
  "is_digit c = (CHR ''0'' \<le> c \<and> c \<le> CHR ''9'')"

definition index_val :: "string \<Rightarrow> int" where
  "index_val s = foldl (\<lambda>n c. 10 * n + (of_char c - 48)) 0 s"

definition is_index :: "string \<Rightarrow> bool" where
  "is_index s = (s \<noteq> [] \<and> list_all is_digit s \<and> (hd s = CHR ''0'' \<longrightarrow> s = ''0'')
     \<and> index_val s < 4294967295)"

text \<open>Where a new index key goes: behind the index keys that are smaller.\<close>

fun ins_index :: "string \<Rightarrow> 'v \<Rightarrow> 'v props \<Rightarrow> 'v props" where
  "ins_index k v [] = [(k, v)]"
| "ins_index k v ((k', v') # ps) =
     (if is_index k' \<and> index_val k' < index_val k then (k', v') # ins_index k v ps
      else (k, v) # (k', v') # ps)"

text \<open>An existing key keeps its place and takes the new value.\<close>

fun replace :: "string \<Rightarrow> 'v \<Rightarrow> 'v props \<Rightarrow> 'v props" where
  "replace k v [] = []"
| "replace k v ((k', v') # ps) =
     (if k' = k then (k, v) # ps else (k', v') # replace k v ps)"

text \<open>\<open>has_key k ps\<close>: \<open>k\<close> is one of the keys (an own property).\<close>

fun has_key :: "string \<Rightarrow> 'v props \<Rightarrow> bool" where
  "has_key k [] = False"
| "has_key k ((k', v') # ps) = (k' = k \<or> has_key k ps)"

text \<open>The assignment \<^verbatim>\<open>o[k] = v\<close> on the properties of \<^verbatim>\<open>o\<close>.\<close>

definition obj_set :: "string \<Rightarrow> 'v \<Rightarrow> 'v props \<Rightarrow> 'v props" where
  "obj_set k v ps =
     (if has_key k ps then replace k v ps
      else if is_index k then ins_index k v ps
      else ps @ [(k, v)])"

text \<open>\<^verbatim>\<open>node[k] = v\<close> on an object or an array.\<close>

fun set_prop :: "jsval \<Rightarrow> string \<Rightarrow> jsval \<Rightarrow> jsval" where
  "set_prop (Arr ps) k v = Arr (obj_set k v ps)"
| "set_prop (Obj ps) k v = Obj (obj_set k v ps)"
| "set_prop node k v = node"

subsection \<open>\<^verbatim>\<open>String.prototype.split\<close>\<close>

text \<open>
  With a non-empty separator the string is cut at each occurrence found from left to
  right; the empty string gives one empty segment. With the empty separator it is cut
  into its characters.
\<close>

fun split_ne :: "string \<Rightarrow> string \<Rightarrow> string list" where
  "split_ne sep [] = [[]]"
| "split_ne sep (c # cs) =
     (if sep \<noteq> [] \<and> take (length sep) (c # cs) = sep
      then [] # split_ne sep (drop (length sep) (c # cs))
      else (case split_ne sep cs of [] \<Rightarrow> [[c]] | p # ps \<Rightarrow> (c # p) # ps))"

definition split_str :: "string \<Rightarrow> string \<Rightarrow> string list" where
  "split_str sep s = (if sep = [] then map (\<lambda>c. [c]) s else split_ne sep s)"

section \<open>flatten\<close>

text \<open>
  \<^verbatim>\<open>flatten(object, {separator})\<close>. The \<^verbatim>\<open>for ... in\<close> loop over the keys of \<^verbatim>\<open>object\<close> is
  \<open>flatten_loop\<close>, with the object under construction \<^verbatim>\<open>flattened\<close> as its accumulator; the
  inner loop over the flattened child \<^verbatim>\<open>flatObject\<close> is \<open>rekey_loop\<close>. The branch into the
  recursion tests \<^verbatim>\<open>object[key] !== null && typeof object[key] == 'object'\<close>. The result, a
  plain object, is given by its properties.

  Each round of either loop begins with the call \<^verbatim>\<open>object.hasOwnProperty(key)\<close>
  (\<^verbatim>\<open>flatObject.hasOwnProperty(x)\<close>). The function is looked up on the object itself: an own
  property named \<^verbatim>\<open>hasOwnProperty\<close> is found before the inherited function, its value is
  data, and calling it throws a \<^verbatim>\<open>TypeError\<close>. Without such an own property the inherited
  function is called, and it is true of every key that the loop enumerates.
\<close>

fun rekey_loop ::
  "string \<Rightarrow> string \<Rightarrow> jsval props \<Rightarrow> jsval props \<Rightarrow> jsval props \<Rightarrow> error + jsval props"
where
  "rekey_loop key sep flatObject [] flattened = Inr flattened"
| "rekey_loop key sep flatObject ((x, w) # rest) flattened =
     (if has_key ''hasOwnProperty'' flatObject then Inl TypeError
      else rekey_loop key sep flatObject rest (obj_set (key @ sep @ x) w flattened))"

function flatten :: "string \<Rightarrow> jsval \<Rightarrow> error + jsval props"
  and flatten_loop :: "string \<Rightarrow> jsval \<Rightarrow> jsval props \<Rightarrow> jsval props \<Rightarrow> error + jsval props"
where
  "flatten sep object =
     (if \<not> isObject object then Inl InvalidArgument
      else flatten_loop sep object (props object) [])"
| "flatten_loop sep object [] flattened = Inr flattened"
| "flatten_loop sep object ((key, v) # rest) flattened =
     (if has_key ''hasOwnProperty'' (props object) then Inl TypeError
      else if v \<noteq> Null \<and> typeof_object v then
        (case flatten sep v of
           Inl e \<Rightarrow> Inl e
         | Inr flatObject \<Rightarrow>
             (case rekey_loop key sep flatObject flatObject flattened of
                Inl e \<Rightarrow> Inl e
              | Inr flattened' \<Rightarrow> flatten_loop sep object rest flattened'))
      else flatten_loop sep object rest (obj_set key v flattened))"
  by pat_completeness auto
termination
proof (relation "measure (\<lambda>a. case a of
    Inl (sep, object) \<Rightarrow> 2 * size object + 1
  | Inr (sep, object, ps, flattened) \<Rightarrow> 2 * size_list (size_prod (\<lambda>_. 0) size) ps)")
  show "wf (measure (\<lambda>a. case a of
    Inl (sep, object) \<Rightarrow> 2 * size object + 1
  | Inr (sep, object, ps, flattened) \<Rightarrow> 2 * size_list (size_prod (\<lambda>_. 0) size) ps))"
    by simp
next
  fix sep :: string and object :: jsval
  assume "\<not> \<not> isObject object"
  then show "(Inr (sep, object, props object, []), Inl (sep, object)) \<in> measure (\<lambda>a. case a of
    Inl (sep, object) \<Rightarrow> 2 * size object + 1
  | Inr (sep, object, ps, flattened) \<Rightarrow> 2 * size_list (size_prod (\<lambda>_. 0) size) ps)"
    by (cases object) simp_all
qed simp_all

section \<open>unflatten\<close>

text \<open>
  The inner loop of \<^verbatim>\<open>unflatten\<close> over the parts of one key, started at \<^verbatim>\<open>currentNode\<close>.
  The result is \<^verbatim>\<open>currentNode\<close> after the loop: the nodes below it are reached through it,
  so the node gets its child back once the child's part of the walk is done.

  A part that is not empty is either the last one (\<^verbatim>\<open>i === keyParts.length - 1\<close>), and
  takes the value, or it is stepped into, through \<^verbatim>\<open>currentNode[keyPart] || {}\<close>. When
  \<^verbatim>\<open>currentNode\<close> has become a primitive (a truthy one, found under an earlier part), the
  assignment to its property throws a \<^verbatim>\<open>TypeError\<close> in strict code (module code is strict)
  and does nothing in sloppy code; \<open>strict\<close> says which.

  The read \<^verbatim>\<open>currentNode[keyPart]\<close> is the read of an own property here. This is the
  code's read for a plain \<open>keyPart\<close>; for the name of a member of \<^verbatim>\<open>Object.prototype\<close> that
  is not an own property of \<^verbatim>\<open>currentNode\<close> the code finds the inherited member instead,
  which is outside the embedding.
\<close>

fun assign_parts :: "bool \<Rightarrow> string list \<Rightarrow> jsval \<Rightarrow> jsval \<Rightarrow> error + jsval" where
  "assign_parts strict [] v currentNode = Inr currentNode"
| "assign_parts strict (keyPart # rest) v currentNode =
     (if keyPart \<noteq> [] then
        (if \<not> isObject currentNode then
           (if strict then Inl TypeError else Inr currentNode)
         else if rest = [] then Inr (set_prop currentNode keyPart v)
         else
           (let child = (case map_of (props currentNode) keyPart of
                           None \<Rightarrow> Obj []
                         | Some c \<Rightarrow> if truthy c then c else Obj [])
            in case assign_parts strict rest v child of
                 Inl e \<Rightarrow> Inl e
               | Inr child' \<Rightarrow> Inr (set_prop currentNode keyPart child')))
      else assign_parts strict rest v currentNode)"

text \<open>
  The loop over the keys of \<^verbatim>\<open>flatObject\<close>, with \<^verbatim>\<open>nested\<close> as its accumulator. Each round
  begins with the call \<^verbatim>\<open>flatObject.hasOwnProperty(key)\<close>, as in \<open>flatten\<close>.
\<close>

fun unflatten_loop :: "bool \<Rightarrow> string \<Rightarrow> jsval \<Rightarrow> jsval props \<Rightarrow> jsval \<Rightarrow> error + jsval" where
  "unflatten_loop strict sep flatObject [] nested = Inr nested"
| "unflatten_loop strict sep flatObject ((key, v) # rest) nested =
     (if has_key ''hasOwnProperty'' (props flatObject) then Inl TypeError
      else
        (case assign_parts strict (split_str sep key) v nested of
           Inl e \<Rightarrow> Inl e
         | Inr nested' \<Rightarrow> unflatten_loop strict sep flatObject rest nested'))"

definition unflatten :: "bool \<Rightarrow> string \<Rightarrow> jsval \<Rightarrow> error + jsval" where
  "unflatten strict sep flatObject =
     (if \<not> isObject flatObject then Inl InvalidArgument
      else unflatten_loop strict sep flatObject (props flatObject) (Obj []))"

section \<open>The lodash functions used by clear, sort and isAssignable\<close>

text \<open>
  \<^verbatim>\<open>_.pickBy\<close>, \<^verbatim>\<open>_.omitBy\<close>, \<^verbatim>\<open>_.mapValues\<close> and \<^verbatim>\<open>_.fromPairs\<close> build a new plain object, one
  assignment per key of their argument; \<^verbatim>\<open>_.assign\<close> writes the properties of its source
  into its target. \<^verbatim>\<open>_.isEmpty\<close> is only ever applied to a plain object here: it has no own
  enumerable key.

  \<^verbatim>\<open>_.pickBy\<close> sets the picked properties with lodash's \<^verbatim>\<open>baseSet\<close>, which refuses the keys
  \<^verbatim>\<open>__proto__\<close>, \<^verbatim>\<open>constructor\<close> and \<^verbatim>\<open>prototype\<close>: a property under one of them is not
  picked. \<^verbatim>\<open>_.omitBy\<close> is \<^verbatim>\<open>_.pickBy\<close> with the negated predicate. \<^verbatim>\<open>_.mapValues\<close> and
  \<^verbatim>\<open>_.assign\<close> define their properties (\<^verbatim>\<open>baseAssignValue\<close>) and refuse no key;
  \<^verbatim>\<open>_.fromPairs\<close> assigns with \<^verbatim>\<open>result[key] = value\<close>.

  The properties of the argument are \<open>props\<close>: the functions are applied to objects and to
  arrays without holes, not to strings. The wrapper \<^verbatim>\<open>_(object)\<close> of the chains is the
  object itself, as it is for an object without an own key \<^verbatim>\<open>__wrapped__\<close>.
\<close>

definition refused_keys :: "string list" where
  "refused_keys = [''__proto__'', ''constructor'', ''prototype'']"

definition pickBy :: "(jsval \<Rightarrow> bool) \<Rightarrow> jsval props \<Rightarrow> jsval props" where
  "pickBy predicate ps =
     fold (\<lambda>(k, v) result.
        if predicate v \<and> k \<notin> set refused_keys then obj_set k v result else result) ps []"

definition omitBy :: "(jsval \<Rightarrow> bool) \<Rightarrow> jsval props \<Rightarrow> jsval props" where
  "omitBy predicate ps = pickBy (\<lambda>v. \<not> predicate v) ps"

definition mapValues :: "(jsval \<Rightarrow> jsval) \<Rightarrow> jsval props \<Rightarrow> jsval props" where
  "mapValues iteratee ps = fold (\<lambda>(k, v). obj_set k (iteratee v)) ps []"

definition assign :: "jsval props \<Rightarrow> jsval props \<Rightarrow> jsval props" where
  "assign target source = fold (\<lambda>(k, v). obj_set k v) source target"

definition fromPairs :: "jsval props \<Rightarrow> jsval props" where
  "fromPairs pairs = fold (\<lambda>(k, v). obj_set k v) pairs []"

definition isEmpty :: "jsval \<Rightarrow> bool" where
  "isEmpty v = (props v = [])"

lemma set_obj_set_subset: "set (obj_set k v ps) \<subseteq> insert (k, v) (set ps)"
proof -
  have "set (replace k v ps) \<subseteq> insert (k, v) (set ps)"
    by (induction ps) (auto split: if_splits)
  moreover have "set (ins_index k v ps) \<subseteq> insert (k, v) (set ps)"
    by (induction ps) (auto split: if_splits)
  ultimately show ?thesis
    unfolding obj_set_def by auto
qed

lemma set_pickBy_subset: "set (pickBy predicate ps) \<subseteq> set ps"
proof -
  have "set (fold (\<lambda>(k, v) result.
          if predicate v \<and> k \<notin> set refused_keys then obj_set k v result else result) ps acc)
          \<subseteq> set ps \<union> set acc" for acc
  proof (induction ps arbitrary: acc)
    case Nil
    show ?case by simp
  next
    case (Cons p ps)
    obtain k v where p: "p = (k, v)" by (cases p)
    show ?case
      using Cons.IH [of "if predicate v \<and> k \<notin> set refused_keys then obj_set k v acc else acc"]
        set_obj_set_subset [of k v acc]
      by (auto simp: p split: if_splits)
  qed
  from this [of "[]"] show ?thesis
    by (simp add: pickBy_def)
qed

lemma mapValues_cong [fundef_cong]:
  "ps = qs \<Longrightarrow> (\<And>k v. (k, v) \<in> set qs \<Longrightarrow> f v = g v) \<Longrightarrow> mapValues f ps = mapValues g qs"
  unfolding mapValues_def
  by (rule fold_cong) auto

lemma size_props_less: "(k, v) \<in> set (props object) \<Longrightarrow> size v < size object"
proof (cases object)
  case (Arr ps)
  assume "(k, v) \<in> set (props object)"
  then have "(k, v) \<in> set ps" by (simp add: Arr)
  then have "size v < Suc (size_list (size_prod (\<lambda>_. 0) size) ps)"
    by (induction ps) auto
  then show ?thesis by (simp add: Arr)
next
  case (Obj ps)
  assume "(k, v) \<in> set (props object)"
  then have "(k, v) \<in> set ps" by (simp add: Obj)
  then have "size v < Suc (size_list (size_prod (\<lambda>_. 0) size) ps)"
    by (induction ps) auto
  then show ?thesis by (simp add: Obj)
qed simp_all

section \<open>clear\<close>

text \<open>
  The two lodash chains of \<^verbatim>\<open>clear\<close>. \<^verbatim>\<open>mapValues(clear)\<close> calls \<^verbatim>\<open>clear(value, key, object)\<close>:
  the options are destructured from the key, a string, which has no \<^verbatim>\<open>skipFirstDepth\<close>, so
  the recursion always runs with the default \<^verbatim>\<open>false\<close>.
\<close>

function clear :: "bool \<Rightarrow> jsval \<Rightarrow> jsval" where
  "clear skipFirstDepth object =
     (if skipFirstDepth then
        Obj (mapValues (\<lambda>v. if isObject v then v else Obj [])
               (assign (mapValues (clear False) (pickBy isObject (props object)))
                  (omitBy isObject (props object))))
      else
        Obj (assign (omitBy isEmpty (mapValues (clear False) (pickBy isObject (props object))))
               (omitBy isObject (props object))))"
  by pat_completeness auto
termination
proof (relation "measure (\<lambda>(skipFirstDepth, object). size object)")
  show "wf (measure (\<lambda>(skipFirstDepth, object). size object))"
    by simp
next
  fix skipFirstDepth :: bool and object k v
  assume "(k, v) \<in> set (pickBy isObject (props object))"
  then have "(k, v) \<in> set (props object)"
    using set_pickBy_subset by blast
  then show "((False, v), (skipFirstDepth, object)) \<in> measure (\<lambda>(skipFirstDepth, object). size object)"
    by (simp add: size_props_less)
next
  fix skipFirstDepth :: bool and object k v
  assume "(k, v) \<in> set (pickBy isObject (props object))"
  then have "(k, v) \<in> set (props object)"
    using set_pickBy_subset by blast
  then show "((False, v), (skipFirstDepth, object)) \<in> measure (\<lambda>(skipFirstDepth, object). size object)"
    by (simp add: size_props_less)
qed

section \<open>sort\<close>

text \<open>
  \<^verbatim>\<open>toPairs\<close> lists the properties, \<^verbatim>\<open>sortBy(0)\<close> is lodash's stable sort on the keys, which
  compares two strings with \<^verbatim>\<open><\<close> (character by character), and \<^verbatim>\<open>fromPairs\<close> assigns the
  sorted pairs, one after the other, to a new object. (An assignment to the key
  \<^verbatim>\<open>__proto__\<close> would go to the inherited setter; the theorem on \<open>sort\<close> assumes that there is
  no such key.)
\<close>

function sort_obj :: "jsval \<Rightarrow> jsval" where
  "sort_obj object =
     Obj (fromPairs (sort_key fst
       (map (\<lambda>(key, v). (key, if isObject v then sort_obj v else v)) (props object))))"
  by pat_completeness auto
termination
proof (relation "measure size")
  show "wf (measure size)" by simp
next
  fix object :: jsval and x key v
  assume "x \<in> set (props object)" and "(key, v) = x"
  then have "(key, v) \<in> set (props object)" by simp
  then show "(v, object) \<in> measure size"
    by (simp add: size_props_less)
qed

section \<open>isAssignable\<close>

text \<open>
  The own properties that \<^verbatim>\<open>hasOwnProperty\<close> knows, enumerable or not: the properties of an
  object; those of an array and its \<^verbatim>\<open>length\<close>, which for an array without holes is the
  number of its index keys; the characters of a string, by index, and its \<^verbatim>\<open>length\<close>.
\<close>

fun own :: "jsval \<Rightarrow> string \<Rightarrow> jsval option" where
  "own (Obj ps) key = map_of ps key"
| "own (Arr ps) key =
     (if key = ''length'' then Some (Num (int (length (filter (\<lambda>p. is_index (fst p)) ps))))
      else map_of ps key)"
| "own (Str s) key =
     (if key = ''length'' then Some (Num (int (length s)))
      else if is_index key \<and> index_val key < int (length s)
        then Some (Str [s ! nat (index_val key)])
      else None)"
| "own v key = None"

text \<open>
  \<^verbatim>\<open>_.has(object, point)\<close> and \<^verbatim>\<open>_.get(object, point)\<close> first turn the string \<^verbatim>\<open>point\<close> into a
  path (\<^verbatim>\<open>castPath\<close>): a string that has no dot, or that is itself a property of the object,
  is a path of one key; any other is cut at its dots. This is lodash's \<^verbatim>\<open>castPath\<close> for a
  point without brackets; the bracket notation of lodash paths (\<^verbatim>\<open>a[0].b\<close>) is outside the
  embedding, and the theorem on \<open>isAssignable\<close> assumes a path free of \<^verbatim>\<open>[\<close> and \<^verbatim>\<open>]\<close>.

  \<^verbatim>\<open>_.has\<close> then wants every key on the path to be an own property (of an array without
  holes: for a hole lodash answers by the \<^verbatim>\<open>length\<close>). \<^verbatim>\<open>_.get\<close> reads along the path, giving
  \<^verbatim>\<open>undefined\<close> (here \<open>None\<close>) when it cannot go on; \<open>isAssignable\<close> calls it only where
  \<^verbatim>\<open>_.has\<close> has answered true, so each key it reads is an own property.
\<close>

definition isKey :: "string \<Rightarrow> jsval \<Rightarrow> bool" where
  "isKey point object = (CHR ''.'' \<notin> set point \<or> own object point \<noteq> None)"

definition castPath :: "string \<Rightarrow> jsval \<Rightarrow> string list" where
  "castPath point object = (if isKey point object then [point] else split_str ''.'' point)"

fun hasPath :: "jsval \<Rightarrow> string list \<Rightarrow> bool" where
  "hasPath object [] = False"
| "hasPath object [key] = (own object key \<noteq> None)"
| "hasPath object (key # path) =
     (case own object key of
        None \<Rightarrow> False
      | Some child \<Rightarrow> hasPath child path)"

fun baseGet :: "jsval \<Rightarrow> string list \<Rightarrow> jsval option" where
  "baseGet object [] = None"
| "baseGet object [key] = own object key"
| "baseGet object (key # path) =
     (case own object key of
        None \<Rightarrow> None
      | Some child \<Rightarrow> if child = Null then None else baseGet child path)"

definition has :: "jsval \<Rightarrow> string \<Rightarrow> bool" where
  "has object point = hasPath object (castPath point object)"

definition get :: "jsval \<Rightarrow> string \<Rightarrow> jsval option" where
  "get object point = baseGet object (castPath point object)"

text \<open>\<^verbatim>\<open>typeof x != 'object'\<close>, where \<^verbatim>\<open>x\<close> may be \<^verbatim>\<open>undefined\<close>.\<close>

fun typeof_not_object :: "jsval option \<Rightarrow> bool" where
  "typeof_not_object None = True"
| "typeof_not_object (Some v) = (\<not> typeof_object v)"

text \<open>
  The path is a string, cut at the separator, or an array of strings (\<^verbatim>\<open>_.Many<string>\<close>).
  \<^verbatim>\<open>pathPoints\<close> is the \<^verbatim>\<open>reduce\<close>: each point is its predecessor, a dot, and the next part of
  the path; the index of the step is the number of points made so far. The result of
  \<^verbatim>\<open>isAssignable\<close> is \<^verbatim>\<open>true\<close> (\<open>Assignable\<close>) or the point returned from the loop.
\<close>

datatype path = PathString string | PathArray "string list"

datatype assignable = Assignable | Collision string

definition pathPoints :: "string list \<Rightarrow> string list" where
  "pathPoints pathArray =
     foldl (\<lambda>arr point.
        arr @ [if length arr > 0 then arr ! (length arr - 1) @ ''.'' @ point else point])
       [] pathArray"

fun check_points :: "jsval \<Rightarrow> string list \<Rightarrow> assignable" where
  "check_points object [] = Assignable"
| "check_points object (point # points) =
     (if has object point \<and> typeof_not_object (get object point) then Collision point
      else check_points object points)"

definition isAssignable :: "jsval \<Rightarrow> path \<Rightarrow> string \<Rightarrow> assignable" where
  "isAssignable object path sep =
     (let pathArray = (case path of PathString s \<Rightarrow> split_str sep s | PathArray a \<Rightarrow> a)
      in check_points object (pathPoints pathArray))"

section \<open>Inputs\<close>

text \<open>
  \<open>all_keys P v\<close>: every key of \<open>v\<close>, at every depth, satisfies \<open>P\<close>. \<open>json v\<close>: \<open>v\<close> is JSON data,
  that is, at every depth the keys of an object are unique and an array has the keys
  \<^verbatim>\<open>0\<close> to \<^verbatim>\<open>n - 1\<close>, in this order, and no other.
\<close>

fun all_keys :: "(string \<Rightarrow> bool) \<Rightarrow> jsval \<Rightarrow> bool" where
  "all_keys P (Obj ps) = (\<forall>p \<in> set ps. P (fst p) \<and> all_keys P (snd p))"
| "all_keys P (Arr ps) = (\<forall>p \<in> set ps. P (fst p) \<and> all_keys P (snd p))"
| "all_keys P v = True"

fun dense_from :: "int \<Rightarrow> 'v props \<Rightarrow> bool" where
  "dense_from n [] = True"
| "dense_from n ((k, v) # ps) = (is_index k \<and> index_val k = n \<and> dense_from (n + 1) ps)"

fun json :: "jsval \<Rightarrow> bool" where
  "json (Obj ps) = (distinct (map fst ps) \<and> (\<forall>p \<in> set ps. json (snd p)))"
| "json (Arr ps) = (dense_from 0 ps \<and> (\<forall>p \<in> set ps. json (snd p)))"
| "json v = True"

text \<open>
  A separator is safe when it is not a part of the name of a member of
  \<^verbatim>\<open>Object.prototype\<close>: then no key made of a key, the separator and another key is such a
  name. \<open>occurs sep s\<close>: the separator is a substring of \<open>s\<close> (\<^verbatim>\<open>s.includes(sep)\<close>).
\<close>

fun occurs :: "string \<Rightarrow> string \<Rightarrow> bool" where
  "occurs sep [] = (sep = [])"
| "occurs sep (c # cs) = (take (length sep) (c # cs) = sep \<or> occurs sep cs)"

definition safe_sep :: "string \<Rightarrow> bool" where
  "safe_sep sep = (\<forall>name \<in> set object_prototype_names. \<not> occurs sep name)"

section \<open>Evaluation and basic facts\<close>

text \<open>
  The recursive equations of \<open>flatten\<close>, \<open>clear\<close> and \<open>sort_obj\<close> apply to any argument, so
  they are taken out of the simplifier's rules; the equations below apply to an
  argument that is visibly an object, an array or a primitive.
\<close>

declare flatten.simps(1) [simp del]
declare clear.simps [simp del]
declare sort_obj.simps [simp del]

lemma isObject_iff: "isObject v = (v \<noteq> Null \<and> typeof_object v)"
  by (cases v) simp_all

lemma flatten_Obj: "flatten sep (Obj ps) = flatten_loop sep (Obj ps) ps []"
  by (simp add: flatten.simps(1))

lemma flatten_Arr: "flatten sep (Arr ps) = flatten_loop sep (Arr ps) ps []"
  by (simp add: flatten.simps(1))

lemma flatten_not_object: "\<not> isObject v \<Longrightarrow> flatten sep v = Inl InvalidArgument"
  by (simp add: flatten.simps(1))

lemma clear_Obj:
  "clear skipFirstDepth (Obj ps) =
     (if skipFirstDepth then
        Obj (mapValues (\<lambda>v. if isObject v then v else Obj [])
               (assign (mapValues (clear False) (pickBy isObject ps)) (omitBy isObject ps)))
      else
        Obj (assign (omitBy isEmpty (mapValues (clear False) (pickBy isObject ps)))
               (omitBy isObject ps)))"
  by (simp add: clear.simps [of _ "Obj ps"])


lemma sort_obj_Obj:
  "sort_obj (Obj ps) =
     Obj (fromPairs (sort_key fst
       (map (\<lambda>(key, v). (key, if isObject v then sort_obj v else v)) ps)))"
  by (simp add: sort_obj.simps [of "Obj ps"])

lemma sort_obj_Arr:
  "sort_obj (Arr ps) =
     Obj (fromPairs (sort_key fst
       (map (\<lambda>(key, v). (key, if isObject v then sort_obj v else v)) ps)))"
  by (simp add: sort_obj.simps [of "Arr ps"])

lemmas obj_set_eval = obj_set_def is_index_def is_digit_def index_val_def

lemmas lodash_eval =
  pickBy_def omitBy_def mapValues_def assign_def fromPairs_def isEmpty_def refused_keys_def

subsection \<open>Keys and the separator\<close>

text \<open>
  A key is clean when it is not empty and the separator does not begin inside it, that
  is, does not occur in the key followed by the separator less its last character; for a
  separator of one character this says that the key does not contain it.
\<close>

definition clean_key :: "string \<Rightarrow> string \<Rightarrow> bool" where
  "clean_key sep key = (key \<noteq> [] \<and> \<not> occurs sep (key @ butlast sep))"

lemma split_ne_single: "sep \<noteq> [] \<Longrightarrow> \<not> occurs sep s \<Longrightarrow> split_ne sep s = [s]"
  by (induction s) auto

lemma take_append_le: "n \<le> length xs \<Longrightarrow> take n (xs @ ys) = take n xs"
  by simp

lemma occurs_append_left: "occurs sep s \<Longrightarrow> occurs sep (s @ t)"
proof (induction s)
  case Nil
  then show ?case by (cases t) auto
next
  case (Cons c cs)
  show ?case
  proof (cases "take (length sep) (c # cs) = sep")
    case True
    then have "length (take (length sep) (c # cs)) = length sep"
      by simp
    then have "length sep \<le> length (c # cs)"
      by simp
    then have "take (length sep) ((c # cs) @ t) = take (length sep) (c # cs)"
      by (rule take_append_le)
    with True show ?thesis by simp
  next
    case False
    with Cons show ?thesis by auto
  qed
qed

lemma split_ne_append:
  assumes "sep \<noteq> []" and "\<not> occurs sep (a @ butlast sep)"
  shows "split_ne sep (a @ sep @ t) = a # split_ne sep t"
  using assms(2)
proof (induction a)
  case Nil
  obtain c cs where sep: "sep = c # cs"
    using assms(1) by (cases sep) auto
  have "split_ne sep (sep @ t) = [] # split_ne sep (drop (length sep) (sep @ t))"
    by (simp add: sep)
  then show ?case by simp
next
  case (Cons c a)
  have no: "take (length sep) (c # a @ butlast sep) \<noteq> sep" and rest: "\<not> occurs sep (a @ butlast sep)"
    using Cons.prems by auto
  have "sep @ t = (butlast sep @ [last sep]) @ t"
    using assms(1) by simp
  then have "sep @ t = butlast sep @ last sep # t"
    by (simp only: append_assoc append_Cons append_Nil)
  then have eq: "c # a @ sep @ t = (c # a @ butlast sep) @ (last sep # t)"
    by (simp only: append_assoc append_Cons)
  have "take (length sep) ((c # a @ butlast sep) @ (last sep # t)) = take (length sep) (c # a @ butlast sep)"
    by (rule take_append_le) simp
  then have "take (length sep) (c # a @ sep @ t) = take (length sep) (c # a @ butlast sep)"
    by (simp only: eq)
  with no have "take (length sep) (c # a @ sep @ t) \<noteq> sep" by simp
  then show ?case
    using Cons.IH [OF rest] by simp
qed

section \<open>Assignment and the content of an object\<close>

lemma has_key_image [simp]: "(k \<in> fst ` set ps) = has_key k ps"
  by (induction ps) auto

lemma has_key_map_of: "has_key k ps = (map_of ps k \<noteq> None)"
  by (induction ps) auto

lemma has_key_mem: "(k, v) \<in> set ps \<Longrightarrow> has_key k ps"
  by (induction ps) auto

lemma has_key_append [simp]: "has_key x (ps @ qs) = (has_key x ps \<or> has_key x qs)"
  by (induction ps) auto

lemma map_fst_replace: "map fst (replace k v ps) = map fst ps"
  by (induction ps) auto

lemma has_key_replace [simp]: "has_key x (replace k v ps) = has_key x ps"
  by (induction ps) (auto split: if_splits)

lemma map_of_replace:
  "map_of (replace k v ps) x = (if x = k \<and> has_key k ps then Some v else map_of ps x)"
  by (induction ps) auto

lemma set_ins_index: "set (ins_index k v ps) = insert (k, v) (set ps)"
  by (induction ps) (auto split: if_splits)

lemma has_key_ins_index [simp]: "has_key x (ins_index k v ps) = (x = k \<or> has_key x ps)"
  by (induction ps) (auto split: if_splits)

lemma distinct_ins_index:
  "\<not> has_key k ps \<Longrightarrow> distinct (map fst ps) \<Longrightarrow> distinct (map fst (ins_index k v ps))"
  by (induction ps) auto

lemma map_of_ins_index:
  "\<not> has_key k ps \<Longrightarrow> map_of (ins_index k v ps) x = (if x = k then Some v else map_of ps x)"
  by (induction ps) auto

lemma map_of_snoc:
  "\<not> has_key k ps \<Longrightarrow> map_of (ps @ [(k, v)]) x = (if x = k then Some v else map_of ps x)"
  by (induction ps) auto

lemma has_key_obj_set [simp]: "has_key x (obj_set k v ps) = (x = k \<or> has_key x ps)"
  by (auto simp: obj_set_def)

lemma distinct_obj_set: "distinct (map fst ps) \<Longrightarrow> distinct (map fst (obj_set k v ps))"
  by (simp add: obj_set_def map_fst_replace distinct_ins_index)

lemma map_of_obj_set: "map_of (obj_set k v ps) x = (if x = k then Some v else map_of ps x)"
proof (cases "has_key k ps")
  case True
  then show ?thesis by (simp add: obj_set_def map_of_replace)
next
  case False
  show ?thesis
  proof (cases "is_index k")
    case True
    with False show ?thesis by (simp add: obj_set_def map_of_ins_index)
  next
    case idx: False
    have "obj_set k v ps = ps @ [(k, v)]"
      using False idx by (simp add: obj_set_def)
    then show ?thesis
      using map_of_snoc [OF False] by simp
  qed
qed

text \<open>
  The loops of lodash: each key of the argument, if its value passes the test, is
  assigned the image of the value in the result. \<open>allowed ps\<close> are the properties under
  keys that \<open>pickBy\<close> does not refuse.
\<close>

definition allowed :: "jsval props \<Rightarrow> jsval props" where
  "allowed ps = filter (\<lambda>(k, v). k \<notin> set refused_keys) ps"

definition put_all :: "(jsval \<Rightarrow> jsval) \<Rightarrow> (jsval \<Rightarrow> bool) \<Rightarrow> jsval props \<Rightarrow> jsval props \<Rightarrow> jsval props" where
  "put_all g P ps acc = fold (\<lambda>(k, v) result. if P v then obj_set k (g v) result else result) ps acc"

lemma put_all_Nil [simp]: "put_all g P [] acc = acc"
  by (simp add: put_all_def)

lemma put_all_Cons [simp]:
  "put_all g P ((k, v) # ps) acc = put_all g P ps (if P v then obj_set k (g v) acc else acc)"
  by (simp add: put_all_def)

lemma pickBy_put_all: "pickBy P ps = put_all (\<lambda>v. v) P (allowed ps) []"
proof -
  have "fold (\<lambda>(k, v) result.
          if P v \<and> k \<notin> set refused_keys then obj_set k v result else result) ps acc
        = put_all (\<lambda>v. v) P (allowed ps) acc" for acc
  proof (induction ps arbitrary: acc)
    case Nil
    show ?case by (simp add: allowed_def)
  next
    case (Cons p ps)
    obtain k v where p: "p = (k, v)" by (cases p)
    show ?case
      using Cons.IH by (simp add: p allowed_def)
  qed
  then show ?thesis
    by (simp add: pickBy_def)
qed

lemma omitBy_put_all: "omitBy P ps = put_all (\<lambda>v. v) (\<lambda>v. \<not> P v) (allowed ps) []"
  by (simp add: omitBy_def pickBy_put_all)





lemma mapValues_put_all: "mapValues f ps = put_all f (\<lambda>v. True) ps []"
  by (simp add: mapValues_def put_all_def)


lemma fromPairs_put_all: "fromPairs pairs = put_all (\<lambda>v. v) (\<lambda>v. True) pairs []"
  by (simp add: fromPairs_def put_all_def)

lemma distinct_put_all: "distinct (map fst acc) \<Longrightarrow> distinct (map fst (put_all g P ps acc))"
proof (induction ps arbitrary: acc)
  case Nil
  then show ?case by simp
next
  case (Cons p ps)
  obtain k v where p: "p = (k, v)" by (cases p)
  show ?case
    using Cons.prems by (auto simp: p intro!: Cons.IH distinct_obj_set)
qed

lemma has_key_put_all:
  "has_key x (put_all g P ps acc) = (has_key x acc \<or> (\<exists>v. (x, v) \<in> set ps \<and> P v))"
proof (induction ps arbitrary: acc)
  case Nil
  show ?case by simp
next
  case (Cons p ps)
  obtain k v where p: "p = (k, v)" by (cases p)
  show ?case
    unfolding p put_all_Cons Cons.IH
    by auto
qed

lemma map_of_put_all:
  "distinct (map fst ps) \<Longrightarrow>
   map_of (put_all g P ps acc) k =
     (case map_of ps k of
        None \<Rightarrow> map_of acc k
      | Some v \<Rightarrow> if P v then Some (g v) else map_of acc k)"
proof (induction ps arbitrary: acc)
  case Nil
  show ?case by simp
next
  case (Cons p ps)
  obtain k' v' where p: "p = (k', v')" by (cases p)
  have fresh: "map_of ps k' = None"
    using Cons.prems by (simp add: p has_key_map_of)
  have "distinct (map fst ps)"
    using Cons.prems by simp
  from Cons.IH [OF this] show ?case
    using fresh by (auto simp: p map_of_obj_set split: option.splits)
qed

section \<open>What flatten builds\<close>

lemma split_ne_not_Nil: "split_ne sep s \<noteq> []"
  by (induction sep s rule: split_ne.induct) (auto split: list.splits)

lemma split_str_append:
  "sep \<noteq> [] \<Longrightarrow> clean_key sep a \<Longrightarrow> split_str sep (a @ sep @ t) = a # split_str sep t"
  by (simp add: split_str_def clean_key_def split_ne_append)

lemma split_str_not_Nil: "sep \<noteq> [] \<Longrightarrow> split_str sep s \<noteq> []"
  by (simp add: split_str_def split_ne_not_Nil)

lemma flatten_loop_Cons:
  "flatten_loop sep object ((key, v) # rest) flattened =
     (if has_key ''hasOwnProperty'' (props object) then Inl TypeError
      else if isObject v then
        (case flatten sep v of
           Inl e \<Rightarrow> Inl e
         | Inr flatObject \<Rightarrow>
             (case rekey_loop key sep flatObject flatObject flattened of
                Inl e \<Rightarrow> Inl e
              | Inr flattened' \<Rightarrow> flatten_loop sep object rest flattened'))
      else flatten_loop sep object rest (obj_set key v flattened))"
  by (cases v) simp_all

declare flatten_loop.simps(2) [simp del]

text \<open>
  \<open>rekey\<close> and \<open>flat_loop\<close> are the two loops of \<open>flatten\<close> without the calls of
  \<^verbatim>\<open>hasOwnProperty\<close>: what the loops build when no call throws.
\<close>

definition rekey :: "string \<Rightarrow> string \<Rightarrow> jsval props \<Rightarrow> jsval props \<Rightarrow> jsval props" where
  "rekey key sep flatObject flattened =
     fold (\<lambda>(x, w). obj_set (key @ sep @ x) w) flatObject flattened"

function flat_loop :: "string \<Rightarrow> jsval props \<Rightarrow> jsval props \<Rightarrow> jsval props" where
  "flat_loop sep [] flattened = flattened"
| "flat_loop sep ((key, v) # rest) flattened =
     flat_loop sep rest
       (if isObject v then rekey key sep (flat_loop sep (props v) []) flattened
        else obj_set key v flattened)"
  by pat_completeness auto
termination
proof (relation "measure (\<lambda>(sep, ps, flattened). size_list (size_prod (\<lambda>_. 0) size) ps)")
  show "wf (measure (\<lambda>(sep, ps, flattened). size_list (size_prod (\<lambda>_. 0) size) ps))"
    by simp
next
  fix sep :: string and key :: string and v :: jsval and rest flattened :: "jsval props"
  assume "isObject v"
  then show "((sep, props v, []), (sep, (key, v) # rest, flattened))
      \<in> measure (\<lambda>(sep, ps, flattened). size_list (size_prod (\<lambda>_. 0) size) ps)"
    by (cases v) simp_all
qed simp_all

lemma flat_loop_Cons:
  "flat_loop sep ((key, v) # rest) flattened =
     flat_loop sep rest
       (if isObject v then rekey key sep (flat_loop sep (props v) []) flattened
        else obj_set key v flattened)"
  by simp

declare flat_loop.simps(2) [simp del]

lemma flat_loop_append:
  "flat_loop sep (pre @ post) flattened = flat_loop sep post (flat_loop sep pre flattened)"
proof (induction pre arbitrary: flattened)
  case Nil
  show ?case by simp
next
  case (Cons p pre)
  obtain k v where p: "p = (k, v)" by (cases p)
  show ?case by (simp add: p flat_loop_Cons Cons.IH)
qed

lemma rekey_Nil [simp]: "rekey key sep [] flattened = flattened"
  by (simp add: rekey_def)

lemma rekey_Cons:
  "rekey key sep ((x, w) # fo) flattened = rekey key sep fo (obj_set (key @ sep @ x) w flattened)"
  by (simp add: rekey_def)

lemma values_obj_set: "snd ` set (obj_set k v ps) \<subseteq> insert v (snd ` set ps)"
  using set_obj_set_subset [of k v ps] by auto

lemma values_rekey: "snd ` set (rekey key sep fo flattened) \<subseteq> snd ` set fo \<union> snd ` set flattened"
proof (induction fo arbitrary: flattened)
  case Nil
  show ?case by simp
next
  case (Cons p fo)
  obtain x w where p: "p = (x, w)" by (cases p)
  show ?case
    using Cons.IH [of "obj_set (key @ sep @ x) w flattened"] values_obj_set [of "key @ sep @ x" w flattened]
    by (auto simp: p rekey_Cons)
qed

lemma flat_loop_values:
  "\<forall>v \<in> snd ` set flattened. \<not> isObject v \<Longrightarrow> \<forall>v \<in> snd ` set (flat_loop sep ps flattened). \<not> isObject v"
proof (induction ps arbitrary: flattened rule: measure_induct_rule [of "size_list (size_prod (\<lambda>_. 0) size)"])
  case (less ps)
  show ?case
  proof (cases ps)
    case Nil
    with less.prems show ?thesis by simp
  next
    case (Cons p rest)
    obtain k v where p: "p = (k, v)" by (cases p)
    have rest: "size_list (size_prod (\<lambda>_. 0) size) rest < size_list (size_prod (\<lambda>_. 0) size) ps"
      by (simp add: Cons)
    show ?thesis
    proof (cases "isObject v")
      case True
      have "size_list (size_prod (\<lambda>_. 0) size) (props v) < size_list (size_prod (\<lambda>_. 0) size) ps"
        using True by (cases v) (simp_all add: Cons p)
      from less.IH [OF this, of "[]"] have inner: "\<forall>w \<in> snd ` set (flat_loop sep (props v) []). \<not> isObject w"
        by simp
      have "\<forall>w \<in> snd ` set (rekey k sep (flat_loop sep (props v) []) flattened). \<not> isObject w"
        using values_rekey [of k sep "flat_loop sep (props v) []" flattened] inner less.prems by blast
      from less.IH [OF rest this] show ?thesis
        using True by (simp add: Cons p flat_loop_Cons)
    next
      case False
      have "\<forall>w \<in> snd ` set (obj_set k v flattened). \<not> isObject w"
        using values_obj_set [of k v flattened] False less.prems by blast
      from less.IH [OF rest this] show ?thesis
        using False by (simp add: Cons p flat_loop_Cons)
    qed
  qed
qed

text \<open>The keys of the result: old ones, keys of primitives, or keys made with the separator.\<close>

lemma occurs_Nil [simp]: "occurs [] s"
  by (cases s) simp_all

lemma occurs_prefix: "occurs sep (sep @ t)"
  by (cases sep) simp_all

lemma occurs_append_right: "occurs sep t \<Longrightarrow> occurs sep (s @ t)"
  by (induction s) simp_all

lemma occurs_middle: "occurs sep (a @ sep @ b)"
  by (intro occurs_append_right occurs_prefix)

lemma has_key_rekey:
  "has_key y (rekey key sep fo flattened) = (has_key y flattened \<or> (\<exists>x. has_key x fo \<and> y = key @ sep @ x))"
proof (induction fo arbitrary: flattened)
  case Nil
  show ?case by simp
next
  case (Cons p fo)
  obtain x w where p: "p = (x, w)" by (cases p)
  show ?case
    by (auto simp: p rekey_Cons Cons.IH)
qed

lemma has_key_flat_loop:
  "has_key y (flat_loop sep ps flattened) \<Longrightarrow> has_key y flattened \<or> has_key y ps \<or> occurs sep y"
proof (induction ps arbitrary: flattened)
  case Nil
  then show ?case by simp
next
  case (Cons p ps)
  obtain k v where p: "p = (k, v)" by (cases p)
  from Cons.prems have "has_key y (flat_loop sep ps
      (if isObject v then rekey k sep (flat_loop sep (props v) []) flattened else obj_set k v flattened))"
    by (simp add: p flat_loop_Cons)
  from Cons.IH [OF this] show ?case
    by (auto simp: p has_key_rekey occurs_middle split: if_splits)
qed

text \<open>
  The calls of \<^verbatim>\<open>hasOwnProperty\<close>: the inner loop throws in its first round when the
  flattened child has an own key of that name, and never else.
\<close>

lemma rekey_loop_eq:
  "\<not> has_key ''hasOwnProperty'' flatObject \<Longrightarrow>
   rekey_loop key sep flatObject rest flattened = Inr (rekey key sep rest flattened)"
  by (induction rest arbitrary: flattened) (auto simp: rekey_Cons)

lemma rekey_loop_error: "rekey_loop key sep flatObject rest flattened = Inl e \<Longrightarrow> e = TypeError"
  by (induction rest arbitrary: flattened) (auto split: if_splits)

lemma all_keys_props:
  "all_keys P object \<Longrightarrow> (k, v) \<in> set (props object) \<Longrightarrow> P k \<and> all_keys P v"
  by (cases object) auto

lemma plain_key_hasOwnProperty: "all_keys plain_key object \<Longrightarrow> \<not> has_key ''hasOwnProperty'' (props object)"
proof
  assume a: "all_keys plain_key object" and "has_key ''hasOwnProperty'' (props object)"
  then obtain v where "(''hasOwnProperty'', v) \<in> set (props object)"
    by (auto simp: has_key_map_of dest!: map_of_SomeD)
  with a have "plain_key ''hasOwnProperty''"
    using all_keys_props by blast
  then show False
    by (simp add: plain_key_def object_prototype_names_def)
qed

lemma safe_sep_hasOwnProperty: "safe_sep sep \<Longrightarrow> \<not> occurs sep ''hasOwnProperty''"
  by (simp add: safe_sep_def object_prototype_names_def)

text \<open>
  On an object or an array with plain keys, with a safe separator, no call throws:
  \<open>flatten\<close> returns what \<open>flat_loop\<close> builds.
\<close>

lemma flatten_loop_plain:
  assumes "safe_sep sep"
  shows "all_keys plain_key object \<Longrightarrow> \<forall>p \<in> set ps. all_keys plain_key (Obj [p]) \<Longrightarrow>
     flatten_loop sep object ps flattened = Inr (flat_loop sep ps flattened)"
proof (induction ps arbitrary: object flattened rule: measure_induct_rule [of "size_list (size_prod (\<lambda>_. 0) size)"])
  case (less ps)
  show ?case
  proof (cases ps)
    case Nil
    then show ?thesis by simp
  next
    case (Cons p rest)
    obtain k v where p: "p = (k, v)" by (cases p)
    have ps: "ps = (k, v) # rest"
      by (simp add: Cons p)
    have own: "\<not> has_key ''hasOwnProperty'' (props object)"
      using less.prems(1) by (rule plain_key_hasOwnProperty)
    have small: "size_list (size_prod (\<lambda>_. 0) size) rest < size_list (size_prod (\<lambda>_. 0) size) ps"
      by (simp add: ps)
    have prest: "\<forall>p \<in> set rest. all_keys plain_key (Obj [p])"
      using less.prems(2) by (simp add: ps)
    have pv: "all_keys plain_key v"
      using less.prems(2) by (simp add: ps)
    show ?thesis
    proof (cases "isObject v")
      case True
      have sv: "size_list (size_prod (\<lambda>_. 0) size) (props v) < size_list (size_prod (\<lambda>_. 0) size) ps"
        using True by (cases v) (simp_all add: ps)
      have "\<forall>p \<in> set (props v). all_keys plain_key (Obj [p])"
        using pv True by (cases v) auto
      from less.IH [OF sv pv this, of "[]"]
      have fv: "flatten sep v = Inr (flat_loop sep (props v) [])"
        using True by (simp add: flatten.simps(1))
      have "\<not> has_key ''hasOwnProperty'' (flat_loop sep (props v) [])"
        using has_key_flat_loop [of "''hasOwnProperty''" sep "props v" "[]"]
          plain_key_hasOwnProperty [OF pv] safe_sep_hasOwnProperty [OF assms]
        by auto
      then have "rekey_loop k sep (flat_loop sep (props v) []) (flat_loop sep (props v) []) flattened
          = Inr (rekey k sep (flat_loop sep (props v) []) flattened)"
        by (rule rekey_loop_eq)
      then show ?thesis
        using True own fv less.IH [OF small less.prems(1) prest]
        by (simp add: ps flatten_loop_Cons flat_loop_Cons)
    next
      case False
      then show ?thesis
        using own less.IH [OF small less.prems(1) prest]
        by (simp add: ps flatten_loop_Cons flat_loop_Cons)
    qed
  qed
qed

lemma flatten_plain:
  assumes "safe_sep sep" and "isObject object" and "all_keys plain_key object"
  shows "flatten sep object = Inr (flat_loop sep (props object) [])"
proof -
  have "\<forall>p \<in> set (props object). all_keys plain_key (Obj [p])"
    using assms(2,3) by (cases object) auto
  from flatten_loop_plain [OF assms(1,3) this, of "[]"] show ?thesis
    using assms(2) by (simp add: flatten.simps(1))
qed

text \<open>\<open>flatten\<close> raises nothing but a \<^verbatim>\<open>TypeError\<close> on an object or an array.\<close>

lemma flatten_loop_error:
  "flatten_loop sep object ps flattened \<noteq> Inl InvalidArgument"
proof (induction ps arbitrary: object flattened rule: measure_induct_rule [of "size_list (size_prod (\<lambda>_. 0) size)"])
  case (less ps)
  show ?case
  proof (cases ps)
    case Nil
    then show ?thesis by simp
  next
    case (Cons p rest)
    obtain k v where p: "p = (k, v)" by (cases p)
    have ps: "ps = (k, v) # rest"
      by (simp add: Cons p)
    have small: "size_list (size_prod (\<lambda>_. 0) size) rest < size_list (size_prod (\<lambda>_. 0) size) ps"
      by (simp add: ps)
    show ?thesis
    proof (cases "isObject v")
      case True
      have sv: "size_list (size_prod (\<lambda>_. 0) size) (props v) < size_list (size_prod (\<lambda>_. 0) size) ps"
        using True by (cases v) (simp_all add: ps)
      have fv: "flatten sep v \<noteq> Inl InvalidArgument"
        using True less.IH [OF sv, of v "[]"] by (simp add: flatten.simps(1))
      show ?thesis
      proof (cases "flatten sep v")
        case (Inl e)
        with fv True show ?thesis
          by (simp add: ps flatten_loop_Cons)
      next
        case (Inr fo)
        show ?thesis
        proof (cases "rekey_loop k sep fo fo flattened")
          case (Inl e)
          then have "e = TypeError" by (rule rekey_loop_error)
          with Inl Inr True show ?thesis
            by (simp add: ps flatten_loop_Cons)
        next
          case (Inr fl)
          with \<open>flatten sep v = Inr fo\<close> True less.IH [OF small, of object fl] show ?thesis
            by (simp add: ps flatten_loop_Cons)
        qed
      qed
    next
      case False
      with less.IH [OF small, of object "obj_set k v flattened"] show ?thesis
        by (simp add: ps flatten_loop_Cons)
    qed
  qed
qed

lemma assign_parts_error: "assign_parts strict parts v node = Inl e \<Longrightarrow> strict \<and> e = TypeError"
proof (induction parts arbitrary: node e)
  case Nil
  then show ?case by simp
next
  case (Cons keyPart rest)
  then show ?case
    by (auto simp: Let_def split: if_splits sum.splits option.splits)
qed

lemma unflatten_loop_error: "unflatten_loop strict sep flatObject ps nested = Inl e \<Longrightarrow> e = TypeError"
proof (induction ps arbitrary: nested)
  case Nil
  then show ?case by simp
next
  case (Cons p ps)
  obtain k v where p: "p = (k, v)" by (cases p)
  show ?case
  proof (cases "has_key ''hasOwnProperty'' (props flatObject)")
    case True
    with Cons.prems show ?thesis by (simp add: p)
  next
    case False
    show ?thesis
    proof (cases "assign_parts strict (split_str sep k) v nested")
      case (Inl e')
      with Cons.prems False have "e' = e" by (simp add: p)
      with Inl show ?thesis using assign_parts_error by blast
    next
      case (Inr nested')
      with Cons.prems False have "unflatten_loop strict sep flatObject ps nested' = Inl e" by (simp add: p)
      then show ?thesis by (rule Cons.IH)
    qed
  qed
qed

text \<open>
  An entry whose value flattens to nothing (an empty Structure or array, or one that holds
  nothing but such) leaves no trace in the result, which is the result for the object
  without the entry, unless the key of the entry is \<^verbatim>\<open>hasOwnProperty\<close>.
\<close>

lemma flatten_loop_object:
  "has_key ''hasOwnProperty'' (props object) = has_key ''hasOwnProperty'' (props object') \<Longrightarrow>
   flatten_loop sep object ps flattened = flatten_loop sep object' ps flattened"
proof (induction ps arbitrary: flattened)
  case Nil
  show ?case by simp
next
  case (Cons p ps)
  obtain k v where p: "p = (k, v)" by (cases p)
  show ?case
    using Cons.prems by (simp add: p flatten_loop_Cons Cons.IH split: sum.splits)
qed

lemma flatten_loop_append:
  "flatten_loop sep object (pre @ post) flattened =
     (case flatten_loop sep object pre flattened of
        Inl e \<Rightarrow> (if pre = [] then flatten_loop sep object post flattened else Inl e)
      | Inr flattened' \<Rightarrow> flatten_loop sep object post flattened')"
proof (induction pre arbitrary: flattened)
  case Nil
  show ?case by simp
next
  case (Cons p pre)
  obtain k v where p: "p = (k, v)" by (cases p)
  show ?case
    by (simp add: p flatten_loop_Cons Cons.IH split: sum.splits)
qed

lemma flatten_loop_throws:
  "has_key ''hasOwnProperty'' (props object) \<Longrightarrow> ps \<noteq> [] \<Longrightarrow>
   flatten_loop sep object ps flattened = Inl TypeError"
  by (cases ps) (auto simp: flatten_loop_Cons)

lemma flatten_drops_empty:
  assumes "flatten sep v = Inr []" and "key \<noteq> ''hasOwnProperty''"
  shows "flatten sep (Obj (pre @ (key, v) # post)) = flatten sep (Obj (pre @ post))"
proof (cases "has_key ''hasOwnProperty'' (pre @ post)")
  case True
  then have ne: "pre @ post \<noteq> []" by auto
  have "flatten_loop sep (Obj (pre @ (key, v) # post)) (pre @ (key, v) # post) [] = Inl TypeError"
    using True by (intro flatten_loop_throws) auto
  moreover have "flatten_loop sep (Obj (pre @ post)) (pre @ post) [] = Inl TypeError"
    using True ne by (intro flatten_loop_throws) simp_all
  ultimately show ?thesis
    by (simp add: flatten.simps(1))
next
  case False
  have obj: "isObject v"
    using assms(1) by (cases "isObject v") (simp_all add: flatten.simps(1))
  let ?o = "Obj (pre @ (key, v) # post)" and ?o' = "Obj (pre @ post)"
  have same: "has_key ''hasOwnProperty'' (props ?o) = has_key ''hasOwnProperty'' (props ?o')"
    using assms(2) by auto
  have own: "\<not> has_key ''hasOwnProperty'' (props ?o)"
    using False assms(2) by auto
  have step: "flatten_loop sep ?o ((key, v) # post) acc = flatten_loop sep ?o post acc" for acc
    using own obj assms(1) by (simp add: flatten_loop_Cons del: has_key_append)
  have "flatten_loop sep ?o (pre @ (key, v) # post) [] = flatten_loop sep ?o (pre @ post) []"
    by (simp add: flatten_loop_append [of sep ?o pre] step split: sum.splits del: has_key_append)
  also have "\<dots> = flatten_loop sep ?o' (pre @ post) []"
    using same by (rule flatten_loop_object)
  finally show ?thesis
    by (simp add: flatten.simps(1))
qed

section \<open>The claims on flatten and unflatten\<close>

text \<open>\<open>flatten\<close>, then \<open>unflatten\<close> on its result, with the same separator.\<close>

definition roundtrip :: "bool \<Rightarrow> string \<Rightarrow> jsval \<Rightarrow> error + jsval" where
  "roundtrip strict sep object =
     (case flatten sep object of
        Inl e \<Rightarrow> Inl e
      | Inr flattened \<Rightarrow> unflatten strict sep (Obj flattened))"

text \<open>
  C3, as stated, fails: an array as root is accepted by both functions (\<^verbatim>\<open>_.isObject\<close> is
  true of an array): \<^verbatim>\<open>flatten([1])\<close> and \<^verbatim>\<open>unflatten([1])\<close> are both \<^verbatim>\<open>{"0": 1}\<close>.
\<close>

theorem invalid_argument_counterexample:
  "flatten ''.'' (Arr [(''0'', Num 1)]) = Inr [(''0'', Num 1)]
   \<and> unflatten True ''.'' (Arr [(''0'', Num 1)]) = Inr (Obj [(''0'', Num 1)])
   \<and> flatten ''.'' (Arr [(''0'', Num 1)]) \<noteq> Inl InvalidArgument
   \<and> unflatten True ''.'' (Arr [(''0'', Num 1)]) \<noteq> Inl InvalidArgument"
  by (simp add: flatten_Arr flatten_loop_Cons unflatten_def split_str_def obj_set_eval)

text \<open>
  C3, amended: \<open>flatten\<close> and \<open>unflatten\<close> raise \<open>InvalidArgument\<close> exactly when the top-level
  input is not an object in the sense of \<^verbatim>\<open>_.isObject\<close>, that is, when it is \<^verbatim>\<open>null\<close>, a
  boolean, a number or a string; a Structure and an array are both accepted, and neither
  function raises \<open>InvalidArgument\<close> on one. A raise carries no result.
\<close>

theorem invalid_argument_iff_not_object:
  "(flatten sep object = Inl InvalidArgument) = (\<not> isObject object)
   \<and> (unflatten strict sep object = Inl InvalidArgument) = (\<not> isObject object)
   \<and> isObject object = (case object of Arr ps \<Rightarrow> True | Obj ps \<Rightarrow> True | _ \<Rightarrow> False)"
proof (cases "isObject object")
  case True
  have "unflatten_loop strict sep object (props object) (Obj []) \<noteq> Inl InvalidArgument"
    using unflatten_loop_error by fastforce
  moreover have "flatten_loop sep object (props object) [] \<noteq> Inl InvalidArgument"
    by (rule flatten_loop_error)
  ultimately show ?thesis
    using True by (cases object) (simp_all add: flatten.simps(1) unflatten_def)
next
  case False
  then show ?thesis
    by (cases object) (simp_all add: flatten_not_object unflatten_def)
qed

theorem invalid_argument_iff_not_object_witness:
  "flatten ''.'' (Num 5) = Inl InvalidArgument
   \<and> flatten ''.'' (Str ''abc'') = Inl InvalidArgument
   \<and> unflatten True ''.'' Null = Inl InvalidArgument
   \<and> flatten ''.'' (Obj [(''a'', Num 1)]) \<noteq> Inl InvalidArgument
   \<and> unflatten False ''.'' (Arr [(''0'', Num 1)]) \<noteq> Inl InvalidArgument"
  using invalid_argument_iff_not_object [of "''.''" "Num 5" True]
    invalid_argument_iff_not_object [of "''.''" "Str ''abc''" True]
    invalid_argument_iff_not_object [of "''.''" Null True]
    invalid_argument_iff_not_object [of "''.''" "Obj [(''a'', Num 1)]" True]
    invalid_argument_iff_not_object [of "''.''" "Arr [(''0'', Num 1)]" False]
  by simp

text \<open>
  C4 fails on the code for a scalar that is truthy. With \<^verbatim>\<open>{"a": 1, "a.b": 2}\<close> the number
  \<^verbatim>\<open>1\<close> under \<^verbatim>\<open>a\<close> is kept by \<^verbatim>\<open>currentNode[keyPart] || {}\<close>, which creates the Structure only
  in place of a falsy value, and the walk goes on at the number: the assignment of \<^verbatim>\<open>b\<close>
  on it throws a \<^verbatim>\<open>TypeError\<close> in strict code and is lost in sloppy code. In neither is the
  scalar overwritten, and the result is never \<^verbatim>\<open>{a: {b: 2}}\<close>. A falsy scalar is overwritten:
  \<^verbatim>\<open>{"a": 0, "a.b": 2}\<close> gives \<^verbatim>\<open>{a: {b: 2}}\<close>, and \<^verbatim>\<open>{"x.a": null, "x.a.b": 2}\<close> gives
  \<^verbatim>\<open>{x: {a: {b: 2}}}\<close>.
\<close>

theorem unflatten_truthy_scalar_not_overwritten:
  "unflatten True ''.'' (Obj [(''a'', Num 1), (''a.b'', Num 2)]) = Inl TypeError
   \<and> unflatten False ''.'' (Obj [(''a'', Num 1), (''a.b'', Num 2)]) = Inr (Obj [(''a'', Num 1)])
   \<and> unflatten True ''.'' (Obj [(''a'', Num 1), (''a.b'', Num 2)])
        \<noteq> Inr (Obj [(''a'', Obj [(''b'', Num 2)])])
   \<and> unflatten False ''.'' (Obj [(''a'', Num 1), (''a.b'', Num 2)])
        \<noteq> Inr (Obj [(''a'', Obj [(''b'', Num 2)])])
   \<and> unflatten strict ''.'' (Obj [(''a'', Num 0), (''a.b'', Num 2)])
        = Inr (Obj [(''a'', Obj [(''b'', Num 2)])])
   \<and> unflatten strict ''.'' (Obj [(''x.a'', Null), (''x.a.b'', Num 2)])
        = Inr (Obj [(''x'', Obj [(''a'', Obj [(''b'', Num 2)])])])"
  by (simp add: unflatten_def split_str_def obj_set_eval)

text \<open>
  C5 fails on the code for a key with a trailing separator: the value is only assigned
  when the last part of the split key is not empty. \<^verbatim>\<open>unflatten({"a.": v})\<close> steps into \<^verbatim>\<open>a\<close>,
  creating \<^verbatim>\<open>{}\<close> there, skips the empty last part and never assigns \<^verbatim>\<open>v\<close>: the result is
  \<^verbatim>\<open>{a: {}}\<close>, where the claim has \<^verbatim>\<open>{a: v}\<close>.
\<close>

theorem unflatten_trailing_separator_loses_value:
  "unflatten strict ''.'' (Obj [(''a.'', v)]) = Inr (Obj [(''a'', Obj [])])"
  by (simp add: unflatten_def split_str_def obj_set_eval)

text \<open>
  C10 fails on the code for an object with an own key \<^verbatim>\<open>hasOwnProperty\<close>: \<open>flatten\<close> calls
  \<^verbatim>\<open>object.hasOwnProperty(key)\<close>, finds the own property, which is no function, and throws a
  \<^verbatim>\<open>TypeError\<close>. The empty Structure under that key is not dropped in silence:
  \<^verbatim>\<open>flatten({hasOwnProperty: {}, x: 1})\<close> throws, where \<^verbatim>\<open>flatten({x: 1})\<close> is \<^verbatim>\<open>{x: 1}\<close>. (Under
  any other key the entry is dropped, by \<open>flatten_drops_empty\<close>.)
\<close>

theorem flatten_hasOwnProperty_key_throws:
  "flatten ''.'' (Obj [(''hasOwnProperty'', Obj []), (''x'', Num 1)]) = Inl TypeError
   \<and> flatten ''.'' (Obj [(''x'', Num 1)]) = Inr [(''x'', Num 1)]
   \<and> roundtrip True ''.'' (Obj [(''hasOwnProperty'', Obj []), (''x'', Num 1)]) = Inl TypeError"
  by (simp add: roundtrip_def flatten_Obj flatten_loop_Cons obj_set_eval)

section \<open>The claims on clear\<close>




lemma distinct_fromPairs: "distinct (map fst (fromPairs ps))"
  by (simp add: fromPairs_put_all distinct_put_all)






lemma clear_is_Obj: "\<exists>qs. clear skipFirstDepth object = Obj qs"
  by (simp add: clear.simps [of skipFirstDepth object])

lemma isObject_clear [simp]: "isObject (clear skipFirstDepth object)"
  using clear_is_Obj [of skipFirstDepth object] by auto

lemma dense_from_ge: "dense_from n ps \<Longrightarrow> (k, v) \<in> set ps \<Longrightarrow> n \<le> index_val k"
proof (induction ps arbitrary: n)
  case Nil
  then show ?case by simp
next
  case (Cons p ps)
  obtain k' v' where p: "p = (k', v')" by (cases p)
  from Cons.prems have "dense_from (n + 1) ps"
    by (simp add: p)
  from Cons.IH [OF this] Cons.prems show ?case
    by (auto simp: p)
qed

lemma dense_from_distinct: "dense_from n ps \<Longrightarrow> distinct (map fst ps)"
proof (induction ps arbitrary: n)
  case Nil
  show ?case by simp
next
  case (Cons p ps)
  obtain k v where p: "p = (k, v)" by (cases p)
  from Cons.prems have d: "dense_from (n + 1) ps" and k: "index_val k = n"
    by (simp_all add: p)
  have "\<not> has_key k ps"
  proof
    assume "has_key k ps"
    then obtain w where "(k, w) \<in> set ps"
      by (auto simp: has_key_map_of dest!: map_of_SomeD)
    from dense_from_ge [OF d this] k show False by simp
  qed
  with Cons.IH [OF d] show ?case
    by (simp add: p)
qed

lemma json_props:
  "json object \<Longrightarrow> distinct (map fst (props object))"
  "json object \<Longrightarrow> (k, v) \<in> set (props object) \<Longrightarrow> json v"
  by (cases object; fastforce simp: dense_from_distinct)+




section \<open>The claim on isAssignable\<close>

text \<open>
  In the words of the specification: the value the object holds at a path of keys, if any,
  and the collision of a path with the object, which holds there a value that is not of
  type \<^verbatim>\<open>'object'\<close>. The value held under a key is an own property (\<open>own\<close>): a property
  of a Structure, an element of an array or its \<^verbatim>\<open>length\<close>. \<open>join_dots\<close> writes a path as a
  string.
\<close>

fun value_at :: "jsval \<Rightarrow> string list \<Rightarrow> jsval option" where
  "value_at v [] = Some v"
| "value_at v (key # path) =
     (case own v key of None \<Rightarrow> None | Some child \<Rightarrow> value_at child path)"

definition collides :: "jsval \<Rightarrow> string list \<Rightarrow> bool" where
  "collides object path =
     (case value_at object path of None \<Rightarrow> False | Some v \<Rightarrow> \<not> typeof_object v)"

fun join_dots :: "string list \<Rightarrow> string" where
  "join_dots [] = []"
| "join_dots [s] = s"
| "join_dots (s # t # rest) = s @ ''.'' @ join_dots (t # rest)"

lemma join_dots_snoc: "segs \<noteq> [] \<Longrightarrow> join_dots (segs @ [x]) = join_dots segs @ ''.'' @ x"
  by (induction segs rule: join_dots.induct) auto

lemma pathPoints_snoc:
  "pathPoints (segs @ [x]) =
     pathPoints segs @ [if pathPoints segs \<noteq> [] then last (pathPoints segs) @ ''.'' @ x else x]"
  by (simp add: pathPoints_def last_conv_nth)

lemma pathPoints_Nil [simp]: "pathPoints [] = []"
  by (simp add: pathPoints_def)

lemma length_pathPoints: "length (pathPoints segs) = length segs"
  by (induction segs rule: rev_induct) (simp_all add: pathPoints_snoc)

lemma pathPoints_eq:
  "pathPoints segs = map (\<lambda>n. join_dots (take n segs)) [1..<Suc (length segs)]"
proof (induction segs rule: rev_induct)
  case Nil
  show ?case by (simp add: pathPoints_def)
next
  case (snoc x xs)
  have front: "map (\<lambda>n. join_dots (take n (xs @ [x]))) [1..<Suc (length xs)]
      = map (\<lambda>n. join_dots (take n xs)) [1..<Suc (length xs)]"
    by (rule map_cong) auto
  have ne: "(pathPoints xs \<noteq> []) = (xs \<noteq> [])"
    using length_pathPoints [of xs] by (cases xs) auto
  have lst: "last (pathPoints xs) = join_dots xs" if "xs \<noteq> []"
  proof -
    from that have "1 \<le> length xs" by (cases xs) auto
    then have "[1..<Suc (length xs)] = [1..<length xs] @ [length xs]"
      by (rule upt_Suc_append)
    then have "pathPoints xs = map (\<lambda>n. join_dots (take n xs)) [1..<length xs] @ [join_dots (take (length xs) xs)]"
      by (simp only: snoc.IH map_append list.map)
    then show ?thesis by simp
  qed
  have "[1..<Suc (length (xs @ [x]))] = [1..<Suc (length xs)] @ [Suc (length xs)]"
    by simp
  then have "map (\<lambda>n. join_dots (take n (xs @ [x]))) [1..<Suc (length (xs @ [x]))]
      = map (\<lambda>n. join_dots (take n xs)) [1..<Suc (length xs)] @ [join_dots (xs @ [x])]"
    using front by simp
  also have "\<dots> = pathPoints (xs @ [x])"
    unfolding pathPoints_snoc ne
    using lst by (cases "xs = []") (simp_all add: snoc.IH join_dots_snoc)
  finally show ?case by simp
qed

lemma occurs_single: "occurs [c] s = (c \<in> set s)"
  by (induction s) auto

lemma dot_in_join_dots: "2 \<le> length segs \<Longrightarrow> CHR ''.'' \<in> set (join_dots segs)"
  by (induction segs rule: join_dots.induct) auto

lemma split_join_dots:
  "\<forall>s \<in> set segs. CHR ''.'' \<notin> set s \<Longrightarrow> segs \<noteq> [] \<Longrightarrow> split_ne ''.'' (join_dots segs) = segs"
proof (induction segs rule: join_dots.induct)
  case 1
  then show ?case by simp
next
  case (2 s)
  then show ?case by (simp add: split_ne_single occurs_single)
next
  case (3 s t rest)
  have "\<not> occurs ''.'' (s @ butlast ''.'')"
    using 3 by (simp add: occurs_single)
  then have "split_ne ''.'' (s @ ''.'' @ join_dots (t # rest)) = s # split_ne ''.'' (join_dots (t # rest))"
    by (intro split_ne_append) simp_all
  with 3 show ?case by simp
qed

lemma own_no_dot:
  "own object key \<noteq> None \<Longrightarrow> has_key key (props object) \<or> CHR ''.'' \<notin> set key"
proof (cases object)
  case (Str s)
  assume "own object key \<noteq> None"
  then have "key = ''length'' \<or> is_index key"
    by (auto simp: Str split: if_splits)
  moreover have "CHR ''.'' \<notin> set ''length''"
    by simp
  moreover have "CHR ''.'' \<notin> set key" if "is_index key"
  proof
    assume "CHR ''.'' \<in> set key"
    moreover from that have "\<forall>c \<in> set key. is_digit c"
      by (simp add: is_index_def list_all_iff)
    ultimately have "is_digit CHR ''.''"
      by blast
    then show False
      by (simp add: is_digit_def)
  qed
  ultimately show ?thesis by blast
qed (auto simp: has_key_map_of split: if_splits)

lemma castPath_join_dots:
  assumes "\<forall>s \<in> set segs. CHR ''.'' \<notin> set s"
    and "\<forall>key. has_key key (props object) \<longrightarrow> CHR ''.'' \<notin> set key"
    and "segs \<noteq> []"
  shows "castPath (join_dots segs) object = segs"
proof (cases "CHR ''.'' \<in> set (join_dots segs)")
  case True
  have "own object (join_dots segs) = None"
  proof (rule ccontr)
    assume "own object (join_dots segs) \<noteq> None"
    from own_no_dot [OF this] True assms(2) show False by blast
  qed
  with True have "\<not> isKey (join_dots segs) object"
    by (simp add: isKey_def)
  then show ?thesis
    using assms(1,3) by (simp add: castPath_def split_str_def split_join_dots)
next
  case False
  then have "\<not> 2 \<le> length segs"
    using dot_in_join_dots by blast
  with assms(3) obtain s where "segs = [s]"
    by (cases segs) (auto simp: not_le less_Suc_eq_le)
  with False show ?thesis
    by (simp add: castPath_def isKey_def)
qed

lemma hasPath_value_at: "path \<noteq> [] \<Longrightarrow> hasPath object path = (value_at object path \<noteq> None)"
proof (induction object path rule: hasPath.induct)
  case (1 object)
  then show ?case by simp
next
  case (2 object key)
  show ?case by (simp split: option.splits)
next
  case (3 object key k' path)
  then show ?case by (simp split: option.splits)
qed

lemma baseGet_value_at: "path \<noteq> [] \<Longrightarrow> baseGet object path = value_at object path"
proof (induction object path rule: baseGet.induct)
  case (1 object)
  then show ?case by simp
next
  case (2 object key)
  show ?case by (simp split: option.splits)
next
  case (3 object key k' path)
  then show ?case by (simp split: option.splits)
qed

lemma point_collides:
  assumes "\<forall>s \<in> set segs. CHR ''.'' \<notin> set s"
    and "\<forall>key. has_key key (props object) \<longrightarrow> CHR ''.'' \<notin> set key"
    and "segs \<noteq> []"
  shows "(has object (join_dots segs) \<and> typeof_not_object (get object (join_dots segs)))
           = collides object segs"
proof -
  have "castPath (join_dots segs) object = segs"
    using assms by (rule castPath_join_dots)
  then show ?thesis
    using assms(3)
    by (cases "value_at object segs")
       (simp_all add: has_def get_def hasPath_value_at baseGet_value_at collides_def)
qed

lemma check_points_map:
  assumes "\<forall>n \<in> set ns. (has object (f n) \<and> typeof_not_object (get object (f n))) = c n"
  shows "check_points object (map f ns) =
           (case find c ns of None \<Rightarrow> Assignable | Some n \<Rightarrow> Collision (f n))"
  using assms by (induction ns) auto

text \<open>
  C6, as stated, fails for \<^verbatim>\<open>null\<close> and for arrays, both of type \<^verbatim>\<open>'object'\<close>: the path \<^verbatim>\<open>a.b\<close>
  is assignable in \<^verbatim>\<open>{a: null}\<close> and in \<^verbatim>\<open>{a: [1]}\<close>, where the claim has the prefix \<^verbatim>\<open>a\<close>
  returned.
\<close>

theorem isAssignable_null_array_counterexample:
  "isAssignable (Obj [(''a'', Null)]) (PathString ''a.b'') ''.'' = Assignable
   \<and> isAssignable (Obj [(''a'', Arr [(''0'', Num 1)])]) (PathString ''a.b'') ''.'' = Assignable
   \<and> isAssignable (Obj [(''a'', Null)]) (PathString ''a.b'') ''.'' \<noteq> Collision ''a''
   \<and> isAssignable (Obj [(''a'', Arr [(''0'', Num 1)])]) (PathString ''a.b'') ''.'' \<noteq> Collision ''a''"
  by (simp add: isAssignable_def split_str_def pathPoints_def has_def get_def castPath_def isKey_def)

text \<open>
  C6, amended: for JSON data (unique keys, arrays without holes) whose top-level keys have
  no dot, and a path whose parts have no dot and no bracket (\<^verbatim>\<open>[\<close>, \<^verbatim>\<open>]\<close>), \<open>isAssignable\<close>
  returns the shortest cumulative prefix, joined by dots, at which the object holds a
  value whose type is not \<^verbatim>\<open>'object'\<close> (a string, a number or a boolean, the \<^verbatim>\<open>length\<close> of an
  array included; \<^verbatim>\<open>null\<close>, arrays and Structures do not collide), and \<^verbatim>\<open>true\<close> when there is
  no such prefix.
\<close>

theorem isAssignable_first_collision:
  assumes "segs = (case path of PathString s \<Rightarrow> split_str sep s | PathArray a \<Rightarrow> a)"
    and "\<forall>s \<in> set segs. CHR ''.'' \<notin> set s \<and> CHR ''['' \<notin> set s \<and> CHR '']'' \<notin> set s"
    and "\<forall>key. has_key key (props object) \<longrightarrow> CHR ''.'' \<notin> set key"
    and "json object"
  shows "isAssignable object path sep =
           (case find (\<lambda>n. collides object (take n segs)) [1..<Suc (length segs)] of
              None \<Rightarrow> Assignable
            | Some n \<Rightarrow> Collision (join_dots (take n segs)))"
proof -
  have "\<forall>n \<in> set [1..<Suc (length segs)].
      (has object (join_dots (take n segs)) \<and> typeof_not_object (get object (join_dots (take n segs))))
        = collides object (take n segs)"
  proof
    fix n
    assume n: "n \<in> set [1..<Suc (length segs)]"
    then have "take n segs \<noteq> []" by auto
    moreover have "\<forall>s \<in> set (take n segs). CHR ''.'' \<notin> set s"
      using assms(2) by (meson in_set_takeD)
    ultimately show "(has object (join_dots (take n segs))
        \<and> typeof_not_object (get object (join_dots (take n segs)))) = collides object (take n segs)"
      using assms(3) by (intro point_collides) simp_all
  qed
  from check_points_map [of "[1..<Suc (length segs)]" object "\<lambda>n. join_dots (take n segs)"
      "\<lambda>n. collides object (take n segs)", OF this]
  have "check_points object (pathPoints segs) =
      (case find (\<lambda>n. collides object (take n segs)) [1..<Suc (length segs)] of
         None \<Rightarrow> Assignable
       | Some n \<Rightarrow> Collision (join_dots (take n segs)))"
    by (simp only: pathPoints_eq)
  moreover have "isAssignable object path sep = check_points object (pathPoints segs)"
    by (simp only: isAssignable_def Let_def assms(1))
  ultimately show ?thesis
    by (simp only:)
qed

theorem isAssignable_first_collision_witness:
  "isAssignable (Obj [(''a'', Obj [(''b'', Num 1)])]) (PathString ''a.b.c'') ''.'' = Collision ''a.b''
   \<and> isAssignable (Obj [(''a'', Arr [(''0'', Num 1)])]) (PathString ''a.length'') ''.'' = Collision ''a.length''
   \<and> isAssignable (Obj [(''a'', Arr [(''0'', Num 1)])]) (PathString ''a.x'') ''.'' = Assignable
   \<and> collides (Obj [(''a'', Obj [(''b'', Num 1)])]) [''a'', ''b'']
   \<and> \<not> collides (Obj [(''a'', Obj [(''b'', Num 1)])]) [''a'']
   \<and> json (Obj [(''a'', Arr [(''0'', Num 1)])])"
proof -
  let ?object = "Obj [(''a'', Obj [(''b'', Num 1)])]"
  let ?array = "Obj [(''a'', Arr [(''0'', Num 1)])]"
  have s1: "[''a'', ''b'', ''c''] = (case PathString ''a.b.c'' of PathString s \<Rightarrow> split_str ''.'' s | PathArray a \<Rightarrow> a)"
    and s2: "[''a'', ''length''] = (case PathString ''a.length'' of PathString s \<Rightarrow> split_str ''.'' s | PathArray a \<Rightarrow> a)"
    and s3: "[''a'', ''x''] = (case PathString ''a.x'' of PathString s \<Rightarrow> split_str ''.'' s | PathArray a \<Rightarrow> a)"
    by (simp_all add: split_str_def)
  have d1: "\<forall>s \<in> set [''a'', ''b'', ''c'']. CHR ''.'' \<notin> set s \<and> CHR ''['' \<notin> set s \<and> CHR '']'' \<notin> set s"
    and d2: "\<forall>s \<in> set [''a'', ''length'']. CHR ''.'' \<notin> set s \<and> CHR ''['' \<notin> set s \<and> CHR '']'' \<notin> set s"
    and d3: "\<forall>s \<in> set [''a'', ''x'']. CHR ''.'' \<notin> set s \<and> CHR ''['' \<notin> set s \<and> CHR '']'' \<notin> set s"
    by simp_all
  have k1: "\<forall>key. has_key key (props ?object) \<longrightarrow> CHR ''.'' \<notin> set key"
    and k2: "\<forall>key. has_key key (props ?array) \<longrightarrow> CHR ''.'' \<notin> set key"
    by simp_all
  have j1: "json ?object" and j2: "json ?array"
    by (simp_all add: is_index_def is_digit_def index_val_def)
  have u: "[1..<Suc (length [''a'', ''b'', ''c''])] = [1, 2, 3]" "[1..<Suc (length [''a'', ''x''])] = [1, 2]"
    "[1..<Suc (length [''a'', ''length''])] = [1, 2]"
    by (simp_all add: upt_rec)
  show ?thesis
    using isAssignable_first_collision [OF s1 d1 k1 j1] isAssignable_first_collision [OF s2 d2 k2 j2]
      isAssignable_first_collision [OF s3 d3 k2 j2] j2
    unfolding u
    by (simp add: collides_def)
qed

section \<open>The order of the keys\<close>

text \<open>
  \<open>key_before k k'\<close>: \<open>k\<close> may be enumerated before \<open>k'\<close>. A list of properties is in
  enumeration order when its keys are distinct and no index key comes after a key that
  is not an index or is a larger index. Every JavaScript object is.
\<close>

definition key_before :: "string \<Rightarrow> string \<Rightarrow> bool" where
  "key_before k k' = (is_index k' \<longrightarrow> is_index k \<and> index_val k < index_val k')"

definition js_order :: "'v props \<Rightarrow> bool" where
  "js_order ps = (distinct (map fst ps) \<and> sorted_wrt key_before (map fst ps))"

lemma js_order_Nil [simp]: "js_order []"
  by (simp add: js_order_def)

lemma ball_keys: "(\<forall>x \<in> set ps. Q (fst x)) = (\<forall>k. has_key k ps \<longrightarrow> Q k)"
  by (induction ps) auto

lemma js_order_Cons:
  "js_order ((k, v) # ps) = (\<not> has_key k ps \<and> (\<forall>k'. has_key k' ps \<longrightarrow> key_before k k') \<and> js_order ps)"
  by (auto simp: js_order_def ball_keys)

text \<open>Two index keys of the same value are the same key: a number has one canonical numeral.\<close>

lemma digit_range: "is_digit c \<Longrightarrow> 48 \<le> (of_char c :: int) \<and> (of_char c :: int) \<le> 57"
proof -
  assume "is_digit c"
  then have "(of_char (CHR ''0'') :: nat) \<le> of_char c" and "(of_char c :: nat) \<le> of_char (CHR ''9'')"
    by (simp_all add: is_digit_def less_eq_char_def)
  then have "48 \<le> (of_char c :: nat)" and "(of_char c :: nat) \<le> 57"
    by simp_all
  moreover have "(of_char c :: int) = int (of_char c)"
    by (simp add: of_nat_of_char)
  ultimately show ?thesis
    by linarith
qed

definition digits_val :: "int \<Rightarrow> string \<Rightarrow> int" where
  "digits_val n s = foldl (\<lambda>n c. 10 * n + (of_char c - 48)) n s"

lemma digits_val_snoc: "digits_val n (s @ [c]) = 10 * digits_val n s + (of_char c - 48)"
  by (simp add: digits_val_def)

lemma digits_val_ge: "list_all is_digit s \<Longrightarrow> 0 \<le> n \<Longrightarrow> n \<le> digits_val n s"
proof (induction s rule: rev_induct)
  case Nil
  show ?case by (simp add: digits_val_def)
next
  case (snoc c s)
  then have "n \<le> digits_val n s" by simp
  moreover have "0 \<le> (of_char c :: int) - 48"
    using snoc.prems digit_range [of c] by simp
  ultimately show ?case
    using snoc.prems(2) by (simp add: digits_val_snoc)
qed

definition canonical :: "string \<Rightarrow> bool" where
  "canonical s = (list_all is_digit s \<and> (s \<noteq> [] \<longrightarrow> hd s \<noteq> CHR ''0''))"

lemma canonical_positive: "canonical s \<Longrightarrow> s \<noteq> [] \<Longrightarrow> 1 \<le> index_val s"
proof -
  assume c: "canonical s" and "s \<noteq> []"
  then obtain d t where s: "s = d # t" by (cases s) auto
  from c have d: "is_digit d" "d \<noteq> CHR ''0''" and t: "list_all is_digit t"
    by (simp_all add: canonical_def s)
  have "(of_char d :: int) \<noteq> 48"
  proof
    assume "(of_char d :: int) = 48"
    then have "(of_char d :: int) = of_char (CHR ''0'')" by simp
    then have "d = CHR ''0''" by (simp only: of_char_eq_iff)
    with d(2) show False by simp
  qed
  with digit_range [OF d(1)] have "1 \<le> (of_char d :: int) - 48" by simp
  moreover have "index_val s = digits_val (of_char d - 48) t"
    by (simp add: index_val_def digits_val_def s)
  ultimately show ?thesis
    using digits_val_ge [OF t, of "of_char d - 48"] by simp
qed

lemma canonical_snocD: "canonical (s @ [c]) \<Longrightarrow> canonical s \<and> is_digit c"
  by (cases s) (simp_all add: canonical_def)

lemma last_digit_unique:
  fixes a b x y :: int
  assumes "10 * a + x = 10 * b + y" and "0 \<le> x" and "x \<le> 9" and "0 \<le> y" and "y \<le> 9"
  shows "a = b \<and> x = y"
  using assms by presburger

lemma canonical_inject:
  "canonical s \<Longrightarrow> canonical t \<Longrightarrow> index_val s = index_val t \<Longrightarrow> s = t"
proof (induction s arbitrary: t rule: rev_induct)
  case Nil
  show ?case
  proof (cases "t = []")
    case False
    with canonical_positive [OF Nil(2)] Nil(3) show ?thesis
      by (simp add: index_val_def)
  qed simp
next
  case (snoc c s)
  have "1 \<le> index_val (s @ [c])"
    using snoc.prems(1) by (intro canonical_positive) simp_all
  with snoc.prems(3) have "t \<noteq> []"
    by (auto simp: index_val_def)
  then obtain d u where t: "t = u @ [d]"
    by (cases t rule: rev_cases) auto
  have cs: "canonical s" "is_digit c" and cu: "canonical u" "is_digit d"
    using snoc.prems(1,2) canonical_snocD [of s c] canonical_snocD [of u d] by (simp_all add: t)
  have "10 * index_val s + (of_char c - 48) = 10 * index_val u + (of_char d - 48)"
    using snoc.prems(3) by (simp add: index_val_def t)
  moreover have "0 \<le> (of_char c :: int) - 48" "(of_char c :: int) - 48 \<le> 9"
    "0 \<le> (of_char d :: int) - 48" "(of_char d :: int) - 48 \<le> 9"
    using digit_range [OF cs(2)] digit_range [OF cu(2)] by simp_all
  ultimately have "index_val s = index_val u \<and> (of_char c :: int) - 48 = of_char d - 48"
    by (rule last_digit_unique)
  then have "index_val s = index_val u" and "(of_char c :: int) = of_char d"
    by simp_all
  then have "s = u" and "c = d"
    using snoc.IH [OF cs(1) cu(1)] by (simp_all only: of_char_eq_iff)
  then show ?case by (simp add: t)
qed

lemma index_val_inject: "is_index k \<Longrightarrow> is_index k' \<Longrightarrow> index_val k = index_val k' \<Longrightarrow> k = k'"
proof -
  assume k: "is_index k" and k': "is_index k'" and eq: "index_val k = index_val k'"
  have zero: "index_val ''0'' = 0" by (simp add: index_val_def)
  have c: "canonical s \<or> s = ''0''" if "is_index s" for s
    using that by (auto simp: is_index_def canonical_def)
  have ne: "s \<noteq> []" if "is_index s" for s
    using that by (auto simp: is_index_def)
  show ?thesis
  proof (cases "k = ''0''")
    case True
    show ?thesis
    proof (cases "k' = ''0''")
      case False
      with c [OF k'] have "canonical k'" by simp
      from canonical_positive [OF this ne [OF k']] eq True zero show ?thesis by simp
    qed (simp add: True)
  next
    case False
    with c [OF k] have ck: "canonical k" by simp
    show ?thesis
    proof (cases "k' = ''0''")
      case True
      from canonical_positive [OF ck ne [OF k]] eq True zero show ?thesis by simp
    next
      case k'0: False
      with c [OF k'] have "canonical k'" by simp
      with ck show ?thesis using eq by (rule canonical_inject)
    qed
  qed
qed

lemma js_order_tl: "js_order (p # ps) \<Longrightarrow> js_order ps"
  by (simp add: js_order_def)

text \<open>A new index key stops in front of a list whose keys must all come after it.\<close>

lemma ins_index_stops:
  "\<forall>k'. has_key k' ps \<longrightarrow> \<not> (is_index k' \<and> index_val k' < index_val k) \<Longrightarrow>
   js_order ps \<Longrightarrow> ins_index k v ps = (k, v) # ps"
  by (cases ps) auto

lemma js_order_ins_index:
  "js_order ps \<Longrightarrow> \<not> has_key k ps \<Longrightarrow> is_index k \<Longrightarrow> js_order (ins_index k v ps)"
proof (induction ps)
  case Nil
  show ?case by (simp add: js_order_def)
next
  case (Cons p ps)
  obtain k' v' where p: "p = (k', v')" by (cases p)
  show ?case
  proof (cases "is_index k' \<and> index_val k' < index_val k")
    case True
    have "js_order (ins_index k v ps)"
      using Cons by (simp add: p js_order_Cons)
    moreover have "key_before k' k"
      using True Cons.prems by (simp add: key_before_def)
    ultimately show ?thesis
      using True Cons.prems by (auto simp: p js_order_Cons)
  next
    case False
    have "\<forall>k''. has_key k'' (p # ps) \<longrightarrow> key_before k k''"
    proof (intro allI impI)
      fix k''
      assume "has_key k'' (p # ps)"
      then consider "k'' = k'" | "has_key k'' ps" by (auto simp: p)
      then show "key_before k k''"
      proof cases
        case 1
        have "k' \<noteq> k"
          using Cons.prems(2) by (auto simp: p)
        then have "is_index k' \<Longrightarrow> index_val k' \<noteq> index_val k"
          using index_val_inject [of k' k] Cons.prems(3) by blast
        then show ?thesis
          using 1 False Cons.prems(3) by (auto simp: key_before_def)
      next
        case 2
        with Cons.prems have "key_before k' k''"
          by (simp add: p js_order_Cons)
        then show ?thesis
          using False Cons.prems(3) by (auto simp: key_before_def)
      qed
    qed
    then show ?thesis
      using False Cons.prems by (auto simp: p js_order_Cons)
  qed
qed

lemma js_order_keys: "map fst ps = map fst qs \<Longrightarrow> js_order ps = js_order qs"
  by (simp add: js_order_def)

lemma js_order_snoc:
  "js_order (ps @ [(k, v)]) = (js_order ps \<and> \<not> has_key k ps \<and> (\<forall>k'. has_key k' ps \<longrightarrow> key_before k' k))"
  by (auto simp: js_order_def sorted_wrt_append ball_keys [of ps "\<lambda>a. key_before a k"])

lemma js_order_appendD: "js_order (ps @ qs) \<Longrightarrow> js_order ps"
  by (simp add: js_order_def sorted_wrt_append)

lemma has_key_filter: "has_key k (filter Q ps) \<Longrightarrow> has_key k ps"
  by (induction ps) (auto split: if_splits)

lemma js_order_filter: "js_order ps \<Longrightarrow> js_order (filter Q ps)"
proof (induction ps)
  case Nil
  show ?case by simp
next
  case (Cons p ps)
  obtain k v where p: "p = (k, v)" by (cases p)
  from Cons show ?case
    by (auto simp: p js_order_Cons dest: has_key_filter)
qed

lemma js_order_obj_set: "js_order ps \<Longrightarrow> js_order (obj_set k v ps)"
proof (cases "has_key k ps")
  case True
  assume "js_order ps"
  then show ?thesis
    using True js_order_keys [of "replace k v ps" ps] by (simp add: obj_set_def map_fst_replace)
next
  case False
  assume j: "js_order ps"
  show ?thesis
  proof (cases "is_index k")
    case True
    with j False show ?thesis by (simp add: obj_set_def js_order_ins_index)
  next
    case idx: False
    with j False show ?thesis by (simp add: obj_set_def js_order_snoc key_before_def)
  qed
qed

lemma ins_index_append:
  "\<forall>k'. has_key k' ps \<longrightarrow> is_index k' \<and> index_val k' < index_val k \<Longrightarrow>
   ins_index k v ps = ps @ [(k, v)]"
  by (induction ps) auto

lemma obj_set_snoc: "js_order (ps @ [(k, v)]) \<Longrightarrow> obj_set k v ps = ps @ [(k, v)]"
  by (auto simp: js_order_snoc obj_set_def key_before_def intro!: ins_index_append)

lemma js_order_put_all: "js_order acc \<Longrightarrow> js_order (put_all g P ps acc)"
proof (induction ps arbitrary: acc)
  case Nil
  then show ?case by simp
next
  case (Cons p ps)
  obtain k v where p: "p = (k, v)" by (cases p)
  show ?case
    using Cons.prems by (auto simp: p intro!: Cons.IH js_order_obj_set)
qed

text \<open>On properties in enumeration order, the loops of lodash are a filter and a map.\<close>

definition filter_map :: "(jsval \<Rightarrow> jsval) \<Rightarrow> (jsval \<Rightarrow> bool) \<Rightarrow> jsval props \<Rightarrow> jsval props" where
  "filter_map g P ps = map (\<lambda>(k, v). (k, g v)) (filter (\<lambda>(k, v). P v) ps)"

lemma filter_map_snoc:
  "filter_map g P (ps @ [(k, v)]) = (if P v then filter_map g P ps @ [(k, g v)] else filter_map g P ps)"
  by (simp add: filter_map_def)

lemma js_order_filter_map: "js_order ps \<Longrightarrow> js_order (filter_map g P ps)"
proof -
  assume "js_order ps"
  then have "js_order (filter (\<lambda>(k, v). P v) ps)"
    by (rule js_order_filter)
  moreover have "map fst (filter_map g P ps) = map fst (filter (\<lambda>(k, v). P v) ps)"
    by (simp add: filter_map_def case_prod_beta)
  ultimately show ?thesis
    using js_order_keys by blast
qed

lemma put_all_js_order_gen:
  "js_order (pre @ ps) \<Longrightarrow> put_all g P ps (filter_map g P pre) = filter_map g P (pre @ ps)"
proof (induction ps arbitrary: pre)
  case Nil
  show ?case by simp
next
  case (Cons p ps)
  obtain k v where p: "p = (k, v)" by (cases p)
  have j: "js_order ((pre @ [(k, v)]) @ ps)"
    using Cons.prems by (simp add: p)
  then have "js_order (filter_map g P (pre @ [(k, v)]))"
    using js_order_appendD js_order_filter_map by blast
  then have "P v \<Longrightarrow> obj_set k (g v) (filter_map g P pre) = filter_map g P pre @ [(k, g v)]"
    by (simp add: filter_map_snoc obj_set_snoc)
  then have "(if P v then obj_set k (g v) (filter_map g P pre) else filter_map g P pre)
      = filter_map g P (pre @ [(k, v)])"
    by (simp add: filter_map_snoc)
  then show ?case
    using Cons.IH [OF j] by (simp add: p)
qed

lemma put_all_js_order: "js_order ps \<Longrightarrow> put_all g P ps [] = filter_map g P ps"
  using put_all_js_order_gen [of "[]" ps g P] by (simp add: filter_map_def)

lemma filter_ins_index:
  "js_order ps \<Longrightarrow>
   filter Q (ins_index k v ps) = (if Q (k, v) then ins_index k v (filter Q ps) else filter Q ps)"
proof (induction ps)
  case Nil
  show ?case by simp
next
  case (Cons p ps)
  obtain k' v' where p: "p = (k', v')" by (cases p)
  have j: "js_order ps"
    using Cons.prems by (rule js_order_tl)
  show ?case
  proof (cases "is_index k' \<and> index_val k' < index_val k")
    case True
    then show ?thesis
      using Cons.IH [OF j] by (simp add: p)
  next
    case False
    have "\<forall>k''. has_key k'' (filter Q (p # ps)) \<longrightarrow> \<not> (is_index k'' \<and> index_val k'' < index_val k)"
    proof (intro allI impI)
      fix k''
      assume "has_key k'' (filter Q (p # ps))"
      then have "has_key k'' (p # ps)" by (rule has_key_filter)
      then consider "k'' = k'" | "has_key k'' ps" by (auto simp: p)
      then show "\<not> (is_index k'' \<and> index_val k'' < index_val k)"
      proof cases
        case 1
        with False show ?thesis by simp
      next
        case 2
        with Cons.prems have "key_before k' k''"
          by (simp add: p js_order_Cons)
        with False show ?thesis
          by (auto simp: key_before_def)
      qed
    qed
    moreover have "js_order (filter Q (p # ps))"
      using Cons.prems by (rule js_order_filter)
    ultimately have "ins_index k v (filter Q (p # ps)) = (k, v) # filter Q (p # ps)"
      by (rule ins_index_stops)
    moreover have "ins_index k v (p # ps) = (k, v) # p # ps"
      using False by (auto simp: p)
    ultimately show ?thesis
      by simp
  qed
qed

lemma filter_obj_set:
  assumes "js_order ps" and "\<not> has_key k ps"
  shows "filter Q (obj_set k v ps) = (if Q (k, v) then obj_set k v (filter Q ps) else filter Q ps)"
proof -
  have "\<not> has_key k (filter Q ps)"
    using assms(2) has_key_filter by blast
  then show ?thesis
    using assms by (simp add: obj_set_def filter_ins_index)
qed

lemma filter_put_all:
  assumes "js_order acc" and "distinct (map fst xs)" and "\<forall>k. has_key k xs \<longrightarrow> \<not> has_key k acc"
  shows "filter Q (put_all (\<lambda>v. v) (\<lambda>v. True) xs acc) = put_all (\<lambda>v. v) (\<lambda>v. True) (filter Q xs) (filter Q acc)"
  using assms
proof (induction xs arbitrary: acc)
  case Nil
  show ?case by simp
next
  case (Cons p xs)
  obtain k v where p: "p = (k, v)" by (cases p)
  have fresh: "\<not> has_key k acc"
    using Cons.prems(3) by (simp add: p)
  have "filter Q (put_all (\<lambda>v. v) (\<lambda>v. True) xs (obj_set k v acc))
      = put_all (\<lambda>v. v) (\<lambda>v. True) (filter Q xs) (filter Q (obj_set k v acc))"
  proof (rule Cons.IH)
    show "js_order (obj_set k v acc)"
      using Cons.prems(1) by (rule js_order_obj_set)
    show "distinct (map fst xs)"
      using Cons.prems(2) by simp
    show "\<forall>k'. has_key k' xs \<longrightarrow> \<not> has_key k' (obj_set k v acc)"
      using Cons.prems(2,3) by (auto simp: p)
  qed
  then show ?case
    using filter_obj_set [OF Cons.prems(1) fresh, of Q v] by (simp add: p)
qed

section \<open>clear is idempotent\<close>

text \<open>The keys of an object are unique, at every depth.\<close>

fun unique_keys :: "jsval \<Rightarrow> bool" where
  "unique_keys (Obj ps) = (distinct (map fst ps) \<and> (\<forall>p \<in> set ps. unique_keys (snd p)))"
| "unique_keys (Arr ps) = (distinct (map fst ps) \<and> (\<forall>p \<in> set ps. unique_keys (snd p)))"
| "unique_keys v = True"

lemma unique_keys_props:
  "unique_keys object \<Longrightarrow> distinct (map fst (props object))"
  "unique_keys object \<Longrightarrow> (k, v) \<in> set (props object) \<Longrightarrow> unique_keys v"
  by (cases object; fastforce)+

lemma set_put_all:
  "(k, w) \<in> set (put_all g P xs acc) \<Longrightarrow>
   (k, w) \<in> set acc \<or> (\<exists>v. (k, v) \<in> set xs \<and> P v \<and> w = g v)"
proof (induction xs arbitrary: acc)
  case Nil
  then show ?case by simp
next
  case (Cons p xs)
  obtain k' v' where p: "p = (k', v')" by (cases p)
  from Cons.prems have "(k, w) \<in> set (put_all g P xs (if P v' then obj_set k' (g v') acc else acc))"
    by (simp add: p)
  from Cons.IH [OF this] show ?case
    using set_obj_set_subset [of k' "g v'" acc] by (auto simp: p split: if_splits)
qed






lemma js_order_pickBy [simp]: "js_order (pickBy P ps)"
  by (simp add: pickBy_put_all js_order_put_all)

lemma js_order_omitBy [simp]: "js_order (omitBy P ps)"
  by (simp add: omitBy_put_all js_order_put_all)

lemma js_order_mapValues [simp]: "js_order (mapValues f ps)"
  by (simp add: mapValues_put_all js_order_put_all)











lemma assign_Nil [simp]: "assign A [] = A"
  by (simp add: assign_def)





lemma clear_Obj_Nil [simp]: "clear False (Obj []) = Obj []"
  by (simp add: clear_Obj lodash_eval)




section \<open>The claim on sort\<close>

text \<open>
  An object is sorted at every depth when those of its keys that are not array indices
  are enumerated in ascending order of the strings, and each value is a primitive or a
  Structure (not an array) sorted at every depth. Nothing is said of the place of the
  keys that are array indices.
\<close>

fun sorted_deep :: "jsval \<Rightarrow> bool" where
  "sorted_deep (Obj ps) =
     (sorted (filter (\<lambda>k. \<not> is_index k) (map fst ps)) \<and> (\<forall>p \<in> set ps. sorted_deep (snd p)))"
| "sorted_deep (Arr ps) = False"
| "sorted_deep v = True"

lemma distinct_keys_sort_key:
  "distinct (map fst xs) \<Longrightarrow> distinct (map fst (sort_key fst xs))"
  by (simp add: distinct_map)

lemma map_of_sort_key:
  fixes xs :: "(string \<times> 'v) list"
  assumes "distinct (map fst xs)"
  shows "map_of (sort_key fst xs) k = map_of xs k"
proof (cases "map_of xs k")
  case None
  then have "\<not> has_key k (sort_key fst xs)"
    using has_key_image [of k xs] has_key_image [of k "sort_key fst xs"]
    by (simp add: has_key_map_of)
  then show ?thesis
    using None by (simp add: has_key_map_of)
next
  case (Some v)
  then have "(k, v) \<in> set (sort_key fst xs)"
    using assms by simp
  then show ?thesis
    using Some distinct_keys_sort_key [OF assms] by simp
qed

lemma fromPairs_keys_sorted:
  assumes "distinct (map fst L)" and "sorted (map fst L)"
  shows "sorted (filter (\<lambda>k. \<not> is_index k) (map fst (fromPairs L)))"
proof -
  let ?Q = "\<lambda>p. \<not> is_index (fst p)"
  have "filter ?Q (fromPairs L) = put_all (\<lambda>v. v) (\<lambda>v. True) (filter ?Q L) (filter ?Q [])"
    unfolding fromPairs_put_all using assms(1) by (intro filter_put_all) simp_all
  moreover have "js_order (filter ?Q L)"
  proof -
    have "distinct (map fst (filter ?Q L))"
      using assms(1) by (simp add: distinct_map_filter)
    moreover have "sorted_wrt key_before (map fst (filter ?Q L))"
      by (rule sorted_wrt_mono_rel [of _ "\<lambda>x y. True"]) (auto simp: key_before_def)
    ultimately show ?thesis by (simp add: js_order_def)
  qed
  ultimately have "filter ?Q (fromPairs L) = filter ?Q L"
    by (simp add: put_all_js_order filter_map_def case_prod_beta)
  then have "map fst (filter ?Q (fromPairs L)) = map fst (filter ?Q L)"
    by simp
  then have "filter (\<lambda>k. \<not> is_index k) (map fst (fromPairs L)) = filter (\<lambda>k. \<not> is_index k) (map fst L)"
    by (simp add: filter_map comp_def case_prod_beta)
  moreover have "sorted (filter (\<lambda>k. \<not> is_index k) (map fst L))"
    using assms(2) by (rule sorted_wrt_filter)
  ultimately show ?thesis
    by simp
qed


lemma sorted_deep_primitive: "\<not> isObject v \<Longrightarrow> sorted_deep v"
  by (cases v) simp_all

lemma sort_obj_props:
  "sort_obj object = Obj (fromPairs (sort_key fst
     (map (\<lambda>(key, v). (key, if isObject v then sort_obj v else v)) (props object))))"
  by (simp add: sort_obj.simps [of object])

lemma keys_sorted_values:
  "map fst (map (\<lambda>(key, v). (key, f v)) ps) = map fst ps"
  by (induction ps) auto

lemma sort_obj_sorted_deep: "unique_keys object \<Longrightarrow> sorted_deep (sort_obj object)"
proof (induction object rule: measure_induct_rule [of size])
  case (less object)
  define f where "f = (\<lambda>v. if isObject v then sort_obj v else v)"
  define L where "L = sort_key fst (map (\<lambda>(key, v). (key, f v)) (props object))"
  have R: "sort_obj object = Obj (fromPairs L)"
    unfolding L_def f_def by (rule sort_obj_props)
  have d: "distinct (map fst L)"
    unfolding L_def using less.prems
    by (intro distinct_keys_sort_key) (simp only: keys_sorted_values unique_keys_props)
  have s: "sorted (map fst L)"
    unfolding L_def by (rule sorted_sort_key)
  have "sorted_deep w" if "(k, w) \<in> set (fromPairs L)" for k w
  proof -
    from that have "(k, w) \<in> set L"
      unfolding fromPairs_put_all by (auto dest: set_put_all)
    then obtain v where v: "(k, v) \<in> set (props object)" and w: "w = f v"
      unfolding L_def by auto
    show ?thesis
    proof (cases "isObject v")
      case True
      have "size v < size object" and "unique_keys v"
        using v less.prems by (simp_all add: size_props_less unique_keys_props)
      then show ?thesis
        using less.IH True by (simp add: w f_def)
    next
      case False
      then show ?thesis
        by (simp add: w f_def sorted_deep_primitive)
    qed
  qed
  then have "\<forall>p \<in> set (fromPairs L). sorted_deep (snd p)"
    by auto
  then show ?case
    using fromPairs_keys_sorted [OF d s] by (simp add: R)
qed

lemma map_of_sort_obj:
  assumes "distinct (map fst (props object))"
  shows "map_of (props (sort_obj object)) k =
           map_option (\<lambda>v. if isObject v then sort_obj v else v) (map_of (props object) k)"
proof -
  define f where "f = (\<lambda>v. if isObject v then sort_obj v else v)"
  define M where "M = map (\<lambda>(key, v). (key, f v)) (props object)"
  have dM: "distinct (map fst M)"
    using assms by (simp only: M_def keys_sorted_values)
  have "map_of (props (sort_obj object)) k = map_of (fromPairs (sort_key fst M)) k"
    by (simp add: sort_obj_props [of object] M_def f_def)
  also have "\<dots> = map_of (sort_key fst M) k"
    using distinct_keys_sort_key [OF dM]
    by (simp add: fromPairs_put_all map_of_put_all split: option.splits)
  also have "\<dots> = map_of M k"
    using dM by (rule map_of_sort_key)
  also have "\<dots> = map_option f (map_of (props object) k)"
    by (simp add: M_def map_of_map)
  finally show ?thesis
    by (simp add: f_def)
qed

lemma json_unique_keys: "json v \<Longrightarrow> unique_keys v"
proof (induction v rule: measure_induct_rule [of size])
  case (less v)
  have d: "distinct (map fst (props v))"
    using less.prems by (rule json_props)
  have "unique_keys w" if "(k, w) \<in> set (props v)" for k w
    using that less.prems less.IH [of w] by (simp add: size_props_less json_props)
  with d show ?case
    by (cases v) auto
qed

text \<open>
  C8, as stated, fails for an array, a scalar of the specification: it is not left as it
  is but sorted like a Structure and returned as one. \<^verbatim>\<open>sort({b: [1], a: 2})\<close> is
  \<^verbatim>\<open>{a: 2, b: {"0": 1}}\<close>.
\<close>

theorem sort_counterexample:
  "sort_obj (Obj [(''b'', Arr [(''0'', Num 1)]), (''a'', Num 2)])
     = Obj [(''a'', Num 2), (''b'', Obj [(''0'', Num 1)])]
   \<and> map_of (props (sort_obj (Obj [(''b'', Arr [(''0'', Num 1)]), (''a'', Num 2)]))) ''b''
     \<noteq> map_of (props (Obj [(''b'', Arr [(''0'', Num 1)]), (''a'', Num 2)])) ''b''"
  by (simp add: sort_obj_Obj sort_obj_Arr lodash_eval obj_set_eval)

text \<open>
  C8, amended: for every Structure or array of JSON data (unique keys, arrays without
  holes) that has no key \<^verbatim>\<open>__proto__\<close> or \<^verbatim>\<open>__wrapped__\<close> at any depth, \<open>sort\<close> returns a Structure
  with the same keys at every depth. Under each key a primitive (a number, a string, a
  boolean or \<^verbatim>\<open>null\<close>) is left as it is, and a Structure or an array is replaced by its
  sorted form, an array becoming the Structure of its indices. At every depth the keys
  that are not array indices are enumerated in ascending order of the strings.
\<close>

theorem sort_preserves_pairs_and_orders_keys:
  assumes "isObject object" and "json object"
    and "all_keys (\<lambda>k. k \<noteq> ''__proto__'' \<and> k \<noteq> ''__wrapped__'') object"
  shows "map_of (props (sort_obj object)) k =
           map_option (\<lambda>v. if isObject v then sort_obj v else v) (map_of (props object) k)
         \<and> sorted_deep (sort_obj object)"
  using assms(2) map_of_sort_obj sort_obj_sorted_deep json_unique_keys json_props(1) by blast

theorem sort_preserves_pairs_and_orders_keys_witness:
  "isObject (Obj [(''b'', Num 1), (''a'', Obj [(''d'', Num 1), (''c'', Num 2)])])
   \<and> json (Obj [(''b'', Num 1), (''a'', Obj [(''d'', Num 1), (''c'', Num 2)])])
   \<and> all_keys (\<lambda>k. k \<noteq> ''__proto__'' \<and> k \<noteq> ''__wrapped__'')
       (Obj [(''b'', Num 1), (''a'', Obj [(''d'', Num 1), (''c'', Num 2)])])
   \<and> sort_obj (Obj [(''b'', Num 1), (''a'', Obj [(''d'', Num 1), (''c'', Num 2)])])
       = Obj [(''a'', Obj [(''c'', Num 2), (''d'', Num 1)]), (''b'', Num 1)]
   \<and> map_of (props (sort_obj (Obj [(''b'', Num 1), (''a'', Obj [(''d'', Num 1), (''c'', Num 2)])]))) ''b''
       = Some (Num 1)
   \<and> sorted_deep (Obj [(''a'', Obj [(''c'', Num 2), (''d'', Num 1)]), (''b'', Num 1)])"
proof -
  let ?x = "Obj [(''b'', Num 1), (''a'', Obj [(''d'', Num 1), (''c'', Num 2)])]"
  have h: "isObject ?x" "json ?x" "all_keys (\<lambda>k. k \<noteq> ''__proto__'' \<and> k \<noteq> ''__wrapped__'') ?x"
    by simp_all
  have s: "sort_obj ?x = Obj [(''a'', Obj [(''c'', Num 2), (''d'', Num 1)]), (''b'', Num 1)]"
    by (simp add: sort_obj_Obj lodash_eval obj_set_eval)
  show ?thesis
    using h s sort_preserves_pairs_and_orders_keys [OF h, of "''b''"]
    by simp
qed

section \<open>The round trip\<close>

text \<open>
  \<open>clean_keys sep v\<close>: at every depth of \<open>v\<close>, in Structures and in arrays, the keys are unique
  and clean. A Structure is restorable when, at every depth, its keys are unique and
  clean and each value is a primitive or a Structure that is not empty and is restorable;
  no value is an array.
\<close>

fun clean_keys :: "string \<Rightarrow> jsval \<Rightarrow> bool" where
  "clean_keys sep (Obj ps) =
     (distinct (map fst ps) \<and> (\<forall>p \<in> set ps. clean_key sep (fst p) \<and> clean_keys sep (snd p)))"
| "clean_keys sep (Arr ps) =
     (distinct (map fst ps) \<and> (\<forall>p \<in> set ps. clean_key sep (fst p) \<and> clean_keys sep (snd p)))"
| "clean_keys sep v = True"

fun restorable :: "string \<Rightarrow> jsval \<Rightarrow> bool" where
  "restorable sep (Obj ps) =
     (distinct (map fst ps) \<and>
      (\<forall>p \<in> set ps. clean_key sep (fst p) \<and>
         (isObject (snd p) \<longrightarrow> props (snd p) \<noteq> [] \<and> restorable sep (snd p))))"
| "restorable sep (Arr ps) = False"
| "restorable sep v = True"

lemma restorable_clean_keys: "restorable sep v \<Longrightarrow> clean_keys sep v"
proof (induction v rule: measure_induct_rule [of size])
  case (less v)
  show ?case
  proof (cases v)
    case (Obj ps)
    have "clean_keys sep w" if "(k, w) \<in> set ps" for k w
    proof (cases "isObject w")
      case True
      have "size w < size v"
        using that size_props_less [of k w v] by (simp add: Obj)
      moreover have "restorable sep w"
        using less.prems that True by (auto simp: Obj)
      ultimately show ?thesis
        by (rule less.IH)
    next
      case False
      then show ?thesis by (cases w) simp_all
    qed
    with less.prems show ?thesis
      by (auto simp: Obj)
  qed (use less.prems in simp_all)
qed

lemma clean_keys_props: "clean_keys sep v \<Longrightarrow> clean_keys sep (Obj (props v))"
  by (cases v) simp_all

text \<open>
  Equality of two values as data, whatever the order of the keys (\<^verbatim>\<open>_.isEqual\<close>): two
  Structures, or two arrays, with the same keys and equal values under each key.
\<close>

fun isEqual :: "jsval \<Rightarrow> jsval \<Rightarrow> bool" where
  "isEqual (Obj ps) (Obj qs) =
     (set (map fst ps) = set (map fst qs) \<and>
      (\<forall>p \<in> set ps. case map_of qs (fst p) of None \<Rightarrow> False | Some w \<Rightarrow> isEqual (snd p) w))"
| "isEqual (Arr ps) (Arr qs) =
     (set (map fst ps) = set (map fst qs) \<and>
      (\<forall>p \<in> set ps. case map_of qs (fst p) of None \<Rightarrow> False | Some w \<Rightarrow> isEqual (snd p) w))"
| "isEqual (Obj ps) w = False"
| "isEqual (Arr ps) w = False"
| "isEqual v w = (v = w)"

text \<open>The path of keys to a primitive in a value, and the flat key of a path.\<close>

inductive leaf :: "jsval \<Rightarrow> string list \<Rightarrow> jsval \<Rightarrow> bool" where
  here: "(k, v) \<in> set (props object) \<Longrightarrow> \<not> isObject v \<Longrightarrow> leaf object [k] v"
| below: "(k, v) \<in> set (props object) \<Longrightarrow> isObject v \<Longrightarrow> leaf v path w \<Longrightarrow> leaf object (k # path) w"

fun join_sep :: "string \<Rightarrow> string list \<Rightarrow> string" where
  "join_sep sep [] = []"
| "join_sep sep [s] = s"
| "join_sep sep (s # t # rest) = s @ sep @ join_sep sep (t # rest)"

lemma join_sep_Cons: "path \<noteq> [] \<Longrightarrow> join_sep sep (k # path) = k @ sep @ join_sep sep path"
  by (cases path) simp_all

lemma clean_key_no_sep: "clean_key sep k \<Longrightarrow> \<not> occurs sep k"
  using occurs_append_left [of sep k "butlast sep"] by (auto simp: clean_key_def)

lemma split_join_sep:
  "sep \<noteq> [] \<Longrightarrow> \<forall>s \<in> set path. clean_key sep s \<Longrightarrow> path \<noteq> [] \<Longrightarrow>
   split_str sep (join_sep sep path) = path"
proof (induction sep path rule: join_sep.induct)
  case (1 sep)
  then show ?case by simp
next
  case (2 sep s)
  then show ?case by (simp add: split_str_def split_ne_single clean_key_no_sep)
next
  case (3 sep s t rest)
  then show ?case by (simp add: split_str_append)
qed

lemma leaf_Obj_Cons:
  "leaf (Obj ((k, v) # rest)) path w \<longleftrightarrow>
     (path = [k] \<and> w = v \<and> \<not> isObject v) \<or>
     (\<exists>path'. path = k # path' \<and> isObject v \<and> leaf v path' w) \<or>
     leaf (Obj rest) path w"
proof
  assume "leaf (Obj ((k, v) # rest)) path w"
  then show "(path = [k] \<and> w = v \<and> \<not> isObject v) \<or>
     (\<exists>path'. path = k # path' \<and> isObject v \<and> leaf v path' w) \<or> leaf (Obj rest) path w"
    by (cases rule: leaf.cases) (auto intro: leaf.intros)
next
  assume "(path = [k] \<and> w = v \<and> \<not> isObject v) \<or>
     (\<exists>path'. path = k # path' \<and> isObject v \<and> leaf v path' w) \<or> leaf (Obj rest) path w"
  then show "leaf (Obj ((k, v) # rest)) path w"
  proof (elim disjE conjE exE)
    assume "leaf (Obj rest) path w"
    then show ?thesis
      by (cases rule: leaf.cases) (auto intro: leaf.intros)
  qed (auto intro: leaf.intros)
qed

lemma leaf_Obj_Nil [simp]: "\<not> leaf (Obj []) path w"
  by (auto elim: leaf.cases)

lemma leaf_props: "leaf (Obj (props object)) path w = leaf object path w"
proof
  assume "leaf (Obj (props object)) path w"
  then show "leaf object path w"
    by (cases rule: leaf.cases) (auto intro: leaf.intros)
next
  assume "leaf object path w"
  then show "leaf (Obj (props object)) path w"
    by (cases rule: leaf.cases) (auto intro: leaf.intros)
qed

lemma leaf_head: "leaf object path w \<Longrightarrow> \<exists>k path'. path = k # path' \<and> has_key k (props object)"
  by (cases rule: leaf.cases) (auto dest: has_key_mem)

lemma leaf_clean:
  "leaf object path w \<Longrightarrow> clean_keys sep object \<Longrightarrow>
   path \<noteq> [] \<and> (\<forall>s \<in> set path. clean_key sep s) \<and> \<not> isObject w"
proof (induction rule: leaf.induct)
  case (here k v object)
  then show ?case by (cases object) auto
next
  case (below k v object path w)
  then have "clean_key sep k" and "clean_keys sep v"
    by (cases object; fastforce)+
  with below show ?case by simp
qed

lemma leaf_restorable:
  "leaf object path w \<Longrightarrow> restorable sep object \<Longrightarrow> isObject object \<Longrightarrow>
   path \<noteq> [] \<and> (\<forall>s \<in> set path. clean_key sep s) \<and> \<not> isObject w"
  using leaf_clean restorable_clean_keys by blast

text \<open>Two paths of clean keys with the same flat key are the same path.\<close>

lemma join_sep_inject:
  assumes "sep \<noteq> []" and "\<forall>s \<in> set p. clean_key sep s" and "\<forall>s \<in> set q. clean_key sep s"
    and "p \<noteq> []" and "q \<noteq> []" and "join_sep sep p = join_sep sep q"
  shows "p = q"
proof -
  have "p = split_str sep (join_sep sep p)"
    using assms(1,2,4) by (rule split_join_sep [symmetric])
  also have "\<dots> = split_str sep (join_sep sep q)"
    by (simp only: assms(6))
  also have "\<dots> = q"
    using assms(1,3,5) by (rule split_join_sep)
  finally show ?thesis .
qed

subsection \<open>What flatten returns\<close>

lemma distinct_rekey: "distinct (map fst flattened) \<Longrightarrow> distinct (map fst (rekey key sep fo flattened))"
proof (induction fo arbitrary: flattened)
  case Nil
  then show ?case by simp
next
  case (Cons p fo)
  obtain x w where p: "p = (x, w)" by (cases p)
  show ?case
    using Cons.prems by (auto simp: p rekey_Cons intro!: Cons.IH distinct_obj_set)
qed

lemma distinct_flat_loop:
  "distinct (map fst flattened) \<Longrightarrow> distinct (map fst (flat_loop sep ps flattened))"
proof (induction ps arbitrary: flattened)
  case Nil
  then show ?case by simp
next
  case (Cons p ps)
  obtain k v where p: "p = (k, v)" by (cases p)
  show ?case
    using Cons.prems by (auto simp: p flat_loop_Cons intro!: Cons.IH distinct_obj_set distinct_rekey)
qed

lemma set_obj_set_fresh: "\<not> has_key k ps \<Longrightarrow> set (obj_set k v ps) = insert (k, v) (set ps)"
  by (simp add: obj_set_def set_ins_index)

lemma set_rekey:
  assumes "distinct (map fst fo)" and "\<forall>x. has_key x fo \<longrightarrow> \<not> has_key (key @ sep @ x) flattened"
  shows "(y, w) \<in> set (rekey key sep fo flattened) \<longleftrightarrow>
           (y, w) \<in> set flattened \<or> (\<exists>x. (x, w) \<in> set fo \<and> y = key @ sep @ x)"
  using assms
proof (induction fo arbitrary: flattened)
  case Nil
  show ?case by simp
next
  case (Cons p fo)
  obtain x' w' where p: "p = (x', w')" by (cases p)
  have fresh: "\<not> has_key (key @ sep @ x') flattened"
    using Cons.prems(2) by (simp add: p)
  have "(y, w) \<in> set (rekey key sep fo (obj_set (key @ sep @ x') w' flattened)) \<longleftrightarrow>
      (y, w) \<in> set (obj_set (key @ sep @ x') w' flattened) \<or> (\<exists>x. (x, w) \<in> set fo \<and> y = key @ sep @ x)"
  proof (rule Cons.IH)
    show "distinct (map fst fo)"
      using Cons.prems(1) by simp
    show "\<forall>x. has_key x fo \<longrightarrow> \<not> has_key (key @ sep @ x) (obj_set (key @ sep @ x') w' flattened)"
      using Cons.prems by (auto simp: p)
  qed
  then show ?case
    unfolding p rekey_Cons set_obj_set_fresh [OF fresh] by auto
qed

text \<open>
  What the loop of \<open>flatten\<close> builds from properties with clean keys: one entry for each
  path to a primitive, through Structures and arrays alike, under the flat key of the
  path.
\<close>

lemma set_flat_loop:
  assumes "sep \<noteq> []"
  shows "clean_keys sep (Obj ps) \<Longrightarrow>
     \<forall>path w. leaf (Obj ps) path w \<longrightarrow> \<not> has_key (join_sep sep path) flattened \<Longrightarrow>
     (key, w) \<in> set (flat_loop sep ps flattened) \<longleftrightarrow>
       (key, w) \<in> set flattened \<or> (\<exists>path. leaf (Obj ps) path w \<and> key = join_sep sep path)"
proof (induction ps arbitrary: flattened key w rule: measure_induct_rule [of "size_list (size_prod (\<lambda>_. 0) size)"])
  case (less ps)
  show ?case
  proof (cases ps)
    case Nil
    then show ?thesis by simp
  next
    case (Cons p rest)
    obtain k v where p: "p = (k, v)" by (cases p)
    have ps: "ps = (k, v) # rest"
      by (simp add: Cons p)
    have rs: "clean_keys sep (Obj rest)" and ck: "clean_key sep k" and fresh_k: "\<not> has_key k rest"
      using less.prems(1) by (simp_all add: ps)
    have small: "size_list (size_prod (\<lambda>_. 0) size) rest < size_list (size_prod (\<lambda>_. 0) size) ps"
      by (simp add: ps)
    have old: "\<not> has_key (join_sep sep path) flattened" if "leaf (Obj rest) path u" for path u
      using less.prems(2) that by (simp add: ps leaf_Obj_Cons)
    have clean_rest: "path \<noteq> [] \<and> (\<forall>s \<in> set path. clean_key sep s) \<and> hd path \<noteq> k"
      if "leaf (Obj rest) path u" for path u
    proof -
      from leaf_clean [OF that rs] have "path \<noteq> [] \<and> (\<forall>s \<in> set path. clean_key sep s)"
        by simp
      moreover from leaf_head [OF that] fresh_k have "hd path \<noteq> k"
        by auto
      ultimately show ?thesis by simp
    qed
    show ?thesis
    proof (cases "isObject v")
      case False
      have fk: "\<not> has_key k flattened"
      proof -
        have "leaf (Obj ps) [k] v"
          using False by (simp add: ps leaf_Obj_Cons)
        with less.prems(2) have "\<not> has_key (join_sep sep [k]) flattened"
          by blast
        then show ?thesis by simp
      qed
      have "\<forall>path u. leaf (Obj rest) path u \<longrightarrow> \<not> has_key (join_sep sep path) (obj_set k v flattened)"
      proof (intro allI impI)
        fix path u
        assume l: "leaf (Obj rest) path u"
        have "join_sep sep path \<noteq> k"
        proof
          assume "join_sep sep path = k"
          then have "join_sep sep path = join_sep sep [k]" by simp
          then have "path = [k]"
            using assms clean_rest [OF l] ck by (intro join_sep_inject) simp_all
          with clean_rest [OF l] show False by simp
        qed
        with old [OF l] show "\<not> has_key (join_sep sep path) (obj_set k v flattened)"
          by simp
      qed
      from less.IH [OF small rs this, of key w]
      have "(key, w) \<in> set (flat_loop sep rest (obj_set k v flattened)) \<longleftrightarrow>
          (key, w) = (k, v) \<or> (key, w) \<in> set flattened
            \<or> (\<exists>path. leaf (Obj rest) path w \<and> key = join_sep sep path)"
        by (simp add: set_obj_set_fresh [OF fk])
      moreover have "(\<exists>path. leaf (Obj ps) path w \<and> key = join_sep sep path) \<longleftrightarrow>
          (key, w) = (k, v) \<or> (\<exists>path. leaf (Obj rest) path w \<and> key = join_sep sep path)"
      proof -
        have "leaf (Obj ps) path w \<longleftrightarrow> (path = [k] \<and> w = v) \<or> leaf (Obj rest) path w" for path
          using False by (simp add: ps leaf_Obj_Cons)
        then have "(\<exists>path. leaf (Obj ps) path w \<and> key = join_sep sep path) \<longleftrightarrow>
            (\<exists>path. ((path = [k] \<and> w = v) \<or> leaf (Obj rest) path w) \<and> key = join_sep sep path)"
          by simp
        also have "\<dots> \<longleftrightarrow> (w = v \<and> key = join_sep sep [k]) \<or> (\<exists>path. leaf (Obj rest) path w \<and> key = join_sep sep path)"
          by blast
        finally show ?thesis by auto
      qed
      ultimately show ?thesis
        using False by (simp add: ps flat_loop_Cons) blast
    next
      case True
      define qs where "qs = props v"
      have v: "leaf (Obj qs) path u = leaf v path u" for path u
        unfolding qs_def by (rule leaf_props)
      have "clean_keys sep v"
        using less.prems(1) by (simp add: ps)
      then have rv: "clean_keys sep (Obj qs)"
        unfolding qs_def by (rule clean_keys_props)
      have "size_list (size_prod (\<lambda>_. 0) size) qs < size_list (size_prod (\<lambda>_. 0) size) ps"
        using True by (cases v) (simp_all add: ps qs_def)
      define fo where "fo = flat_loop sep qs []"
      from less.IH [OF \<open>size_list (size_prod (\<lambda>_. 0) size) qs < size_list (size_prod (\<lambda>_. 0) size) ps\<close> rv, of "[]"]
      have fo: "(x, u) \<in> set fo \<longleftrightarrow> (\<exists>path. leaf (Obj qs) path u \<and> x = join_sep sep path)"
        for x u
        by (simp add: fo_def)
      have dfo: "distinct (map fst fo)"
        unfolding fo_def by (rule distinct_flat_loop) simp
      have keys_fo: "\<exists>path u. leaf (Obj qs) path u \<and> x = join_sep sep path" if "has_key x fo" for x
      proof -
        from that obtain u where "(x, u) \<in> set fo"
          by (auto simp: has_key_map_of dest!: map_of_SomeD)
        then show ?thesis
          using fo [of x u] by blast
      qed
      have clean_v: "path \<noteq> [] \<and> (\<forall>s \<in> set path. clean_key sep s)" if "leaf (Obj qs) path u" for path u
        using leaf_clean [OF that rv] by simp
      have join_k: "join_sep sep (k # path) = k @ sep @ join_sep sep path" if "leaf (Obj qs) path u" for path u
        using clean_v [OF that] by (simp add: join_sep_Cons)
      have leaf_k: "leaf (Obj ps) (k # path) u" if "leaf (Obj qs) path u" for path u
        using that True by (simp add: ps leaf_Obj_Cons v)
      have fresh_fo: "\<forall>x. has_key x fo \<longrightarrow> \<not> has_key (k @ sep @ x) flattened"
      proof (intro allI impI)
        fix x
        assume "has_key x fo"
        with keys_fo obtain path u where l: "leaf (Obj qs) path u" and x: "x = join_sep sep path"
          by blast
        from less.prems(2) leaf_k [OF l] have "\<not> has_key (join_sep sep (k # path)) flattened"
          by blast
        then show "\<not> has_key (k @ sep @ x) flattened"
          by (simp add: join_k [OF l] x)
      qed
      have new: "(y, u) \<in> set (rekey k sep fo flattened) \<longleftrightarrow>
          (y, u) \<in> set flattened \<or> (\<exists>path. leaf (Obj qs) path u \<and> y = join_sep sep (k # path))" for y u
      proof -
        have "(\<exists>x. (x, u) \<in> set fo \<and> y = k @ sep @ x) \<longleftrightarrow>
            (\<exists>path. leaf (Obj qs) path u \<and> y = join_sep sep (k # path))"
        proof
          assume "\<exists>x. (x, u) \<in> set fo \<and> y = k @ sep @ x"
          then obtain x where "(x, u) \<in> set fo" and "y = k @ sep @ x"
            by blast
          then obtain path where l: "leaf (Obj qs) path u" and "y = k @ sep @ join_sep sep path"
            using fo [of x u] by blast
          then have "y = join_sep sep (k # path)"
            by (simp add: join_k [OF l])
          with l show "\<exists>path. leaf (Obj qs) path u \<and> y = join_sep sep (k # path)"
            by blast
        next
          assume "\<exists>path. leaf (Obj qs) path u \<and> y = join_sep sep (k # path)"
          then obtain path where l: "leaf (Obj qs) path u" and y: "y = join_sep sep (k # path)"
            by blast
          then have "(join_sep sep path, u) \<in> set fo"
            using fo [of "join_sep sep path" u] by blast
          moreover have "y = k @ sep @ join_sep sep path"
            by (simp add: y join_k [OF l])
          ultimately show "\<exists>x. (x, u) \<in> set fo \<and> y = k @ sep @ x"
            by blast
        qed
        then show ?thesis
          using set_rekey [OF dfo fresh_fo, of y u] by simp
      qed
      have "\<forall>path u. leaf (Obj rest) path u \<longrightarrow> \<not> has_key (join_sep sep path) (rekey k sep fo flattened)"
      proof (intro allI impI notI)
        fix path u
        assume l: "leaf (Obj rest) path u" and h: "has_key (join_sep sep path) (rekey k sep fo flattened)"
        from h old [OF l] obtain x where "has_key x fo" and "join_sep sep path = k @ sep @ x"
          by (auto simp: has_key_rekey)
        with keys_fo obtain path' u' where l': "leaf (Obj qs) path' u'"
          and eq: "join_sep sep path = k @ sep @ join_sep sep path'"
          by blast
        have "join_sep sep path = join_sep sep (k # path')"
          by (simp add: eq join_k [OF l'])
        then have "path = k # path'"
          using assms clean_rest [OF l] clean_v [OF l'] ck by (intro join_sep_inject) simp_all
        with clean_rest [OF l] show False by simp
      qed
      from less.IH [OF small rs this, of key w]
      have "(key, w) \<in> set (flat_loop sep rest (rekey k sep fo flattened)) \<longleftrightarrow>
          (key, w) \<in> set flattened \<or> (\<exists>path. leaf (Obj qs) path w \<and> key = join_sep sep (k # path))
            \<or> (\<exists>path. leaf (Obj rest) path w \<and> key = join_sep sep path)"
        by (simp add: new)
      moreover have "(\<exists>path. leaf (Obj ps) path w \<and> key = join_sep sep path) \<longleftrightarrow>
          (\<exists>path. leaf (Obj qs) path w \<and> key = join_sep sep (k # path))
            \<or> (\<exists>path. leaf (Obj rest) path w \<and> key = join_sep sep path)"
      proof -
        have iff: "leaf (Obj ps) path w \<longleftrightarrow> (\<exists>path'. path = k # path' \<and> leaf (Obj qs) path' w) \<or> leaf (Obj rest) path w"
          for path
          using True by (simp add: ps leaf_Obj_Cons v)
        show ?thesis
        proof
          assume "\<exists>path. leaf (Obj ps) path w \<and> key = join_sep sep path"
          then obtain path where l: "leaf (Obj ps) path w" and key: "key = join_sep sep path"
            by blast
          from l iff [of path] consider path' where "path = k # path'" "leaf (Obj qs) path' w"
            | "leaf (Obj rest) path w"
            by blast
          then show "(\<exists>path. leaf (Obj qs) path w \<and> key = join_sep sep (k # path))
              \<or> (\<exists>path. leaf (Obj rest) path w \<and> key = join_sep sep path)"
          proof cases
            case 1
            with key show ?thesis by blast
          next
            case 2
            with key show ?thesis by blast
          qed
        next
          assume "(\<exists>path. leaf (Obj qs) path w \<and> key = join_sep sep (k # path))
              \<or> (\<exists>path. leaf (Obj rest) path w \<and> key = join_sep sep path)"
          then show "\<exists>path. leaf (Obj ps) path w \<and> key = join_sep sep path"
          proof
            assume "\<exists>path. leaf (Obj qs) path w \<and> key = join_sep sep (k # path)"
            then obtain path where "leaf (Obj qs) path w" and key: "key = join_sep sep (k # path)"
              by blast
            then have "leaf (Obj ps) (k # path) w"
              using iff [of "k # path"] by simp
            with key show ?thesis by blast
          next
            assume "\<exists>path. leaf (Obj rest) path w \<and> key = join_sep sep path"
            then obtain path where "leaf (Obj rest) path w" and key: "key = join_sep sep path"
              by blast
            then have "leaf (Obj ps) path w"
              using iff [of path] by simp
            with key show ?thesis by blast
          qed
        qed
      qed
      ultimately show ?thesis
        using True by (simp add: ps flat_loop_Cons fo_def qs_def)
    qed
  qed
qed

text \<open>
  C2, as stated, fails: \<^verbatim>\<open>flatten({a: [1, 2]})\<close> is \<^verbatim>\<open>{"a.0": 1, "a.1": 2}\<close>, not \<^verbatim>\<open>{a: [1, 2]}\<close>.
  An array has \<^verbatim>\<open>typeof\<close> \<^verbatim>\<open>'object'\<close>, so the loop recurses into it.
\<close>

theorem flatten_array_counterexample:
  "flatten ''.'' (Obj [(''a'', Arr [(''0'', Num 1), (''1'', Num 2)])])
     = Inr [(''a.0'', Num 1), (''a.1'', Num 2)]
   \<and> flatten ''.'' (Obj [(''a'', Arr [(''0'', Num 1), (''1'', Num 2)])])
     \<noteq> Inr [(''a'', Arr [(''0'', Num 1), (''1'', Num 2)])]"
  by (simp add: flatten_Obj flatten_Arr flatten_loop_Cons obj_set_eval)

text \<open>
  C2, amended: \<open>flatten\<close> recurses into an array as into a Structure, the indices of the
  array as keys. On a Structure or an array whose keys, at every depth, are unique,
  clean and plain, with a safe separator, \<open>flatten\<close> returns, and its result has exactly
  one entry for each path of keys and indices that leads to a primitive (\<open>leaf\<close>, which
  goes through Structures and arrays alike): the entry has the keys and indices of the
  path, joined by the separator, as its key and the primitive as its value. So the
  element \<^verbatim>\<open>i\<close> of an array under \<^verbatim>\<open>key\<close> lands under \<^verbatim>\<open>key + separator + i\<close>, and no array or
  Structure is a value of the result.
\<close>

theorem flatten_recurses_into_arrays:
  assumes "safe_sep sep" and "isObject object" and "clean_keys sep object"
    and "all_keys plain_key object"
  shows "\<exists>out. flatten sep object = Inr out \<and> distinct (map fst out)
           \<and> (\<forall>key w. (key, w) \<in> set out \<longleftrightarrow> (\<exists>path. leaf object path w \<and> key = join_sep sep path))
           \<and> (\<forall>w \<in> snd ` set out. \<not> isObject w)"
proof -
  have sep: "sep \<noteq> []"
    using assms(1) by (auto simp: safe_sep_def object_prototype_names_def)
  define out where "out = flat_loop sep (props object) []"
  have "flatten sep object = Inr out"
    unfolding out_def using assms(1,2,4) by (rule flatten_plain)
  moreover have "distinct (map fst out)"
    unfolding out_def by (rule distinct_flat_loop) simp
  moreover have "(key, w) \<in> set out \<longleftrightarrow> (\<exists>path. leaf object path w \<and> key = join_sep sep path)"
    for key w
    unfolding out_def
    using set_flat_loop [OF sep clean_keys_props [OF assms(3)], of "[]" key w]
    by (simp add: leaf_props)
  moreover have "\<forall>w \<in> snd ` set out. \<not> isObject w"
    unfolding out_def using flat_loop_values [of "[]" sep "props object"] by simp
  ultimately show ?thesis
    by blast
qed

theorem flatten_recurses_into_arrays_witness:
  "safe_sep ''.''
   \<and> clean_keys ''.'' (Obj [(''a'', Arr [(''0'', Num 1), (''1'', Obj [(''b'', Num 2)])])])
   \<and> all_keys plain_key (Obj [(''a'', Arr [(''0'', Num 1), (''1'', Obj [(''b'', Num 2)])])])
   \<and> flatten ''.'' (Obj [(''a'', Arr [(''0'', Num 1), (''1'', Obj [(''b'', Num 2)])])])
       = Inr [(''a.0'', Num 1), (''a.1.b'', Num 2)]
   \<and> leaf (Obj [(''a'', Arr [(''0'', Num 1), (''1'', Obj [(''b'', Num 2)])])]) [''a'', ''1'', ''b''] (Num 2)
   \<and> (\<exists>path. leaf (Obj [(''a'', Arr [(''0'', Num 1), (''1'', Obj [(''b'', Num 2)])])]) path (Num 1)
         \<and> ''a.0'' = join_sep ''.'' path)"
proof -
  let ?x = "Obj [(''a'', Arr [(''0'', Num 1), (''1'', Obj [(''b'', Num 2)])])]"
  have h: "safe_sep ''.''" "isObject ?x" "clean_keys ''.'' ?x" "all_keys plain_key ?x"
    by (simp_all add: safe_sep_def plain_key_def object_prototype_names_def clean_key_def)
  have f: "flatten ''.'' ?x = Inr [(''a.0'', Num 1), (''a.1.b'', Num 2)]"
    by (simp add: flatten_Obj flatten_Arr flatten_loop_Cons obj_set_eval)
  have l: "leaf ?x [''a'', ''1'', ''b''] (Num 2)"
    by (intro leaf.below [of "''a''" "Arr [(''0'', Num 1), (''1'', Obj [(''b'', Num 2)])]"]
        leaf.below [of "''1''" "Obj [(''b'', Num 2)]"] leaf.here) simp_all
  from flatten_recurses_into_arrays [OF h] f
  have "(\<exists>path. leaf ?x path (Num 1) \<and> ''a.0'' = join_sep ''.'' path)"
    by auto
  with h f l show ?thesis
    by simp
qed

subsection \<open>What unflatten builds\<close>

text \<open>
  While \<open>unflatten\<close> works through the flattened form of a Structure, \<open>nested\<close> is a part
  of that Structure: each of its keys is a key of the Structure, with the same primitive
  under it or with a part, not empty, of the Structure under it.
\<close>

fun part_of :: "jsval \<Rightarrow> jsval \<Rightarrow> bool" where
  "part_of (Obj ps) (Obj xs) =
     (distinct (map fst ps) \<and>
      (\<forall>p \<in> set ps. case map_of xs (fst p) of
          None \<Rightarrow> False
        | Some v \<Rightarrow> if isObject v then props (snd p) \<noteq> [] \<and> part_of (snd p) v else snd p = v))"
| "part_of t x = False"

lemma part_of_Obj: "part_of t x \<Longrightarrow> \<exists>ps xs. t = Obj ps \<and> x = Obj xs"
  by (cases t; cases x) simp_all

lemma part_of_entry:
  assumes "part_of (Obj ps) (Obj xs)" and "map_of ps k = Some c"
  shows "\<exists>v. map_of xs k = Some v \<and>
           (if isObject v then props c \<noteq> [] \<and> part_of c v \<and> isObject c else c = v)"
proof -
  have mem: "(k, c) \<in> set ps"
    using assms(2) by (rule map_of_SomeD)
  have all: "\<forall>p \<in> set ps. case map_of xs (fst p) of
      None \<Rightarrow> False
    | Some v \<Rightarrow> if isObject v then props (snd p) \<noteq> [] \<and> part_of (snd p) v else snd p = v"
    using assms(1) by simp
  from bspec [OF all mem] have "case map_of xs k of
      None \<Rightarrow> False
    | Some v \<Rightarrow> if isObject v then props c \<noteq> [] \<and> part_of c v else c = v"
    by (auto split: option.splits)
  then obtain v where v: "map_of xs k = Some v"
    and "if isObject v then props c \<noteq> [] \<and> part_of c v else c = v"
    by (cases "map_of xs k") simp_all
  moreover have "isObject c" if "part_of c v"
    using part_of_Obj [OF that] by auto
  ultimately show ?thesis
    by (auto split: if_splits)
qed

lemma leaf_map_of:
  assumes "distinct (map fst (props object))"
  shows "leaf object (k # path) u \<longleftrightarrow>
           (case map_of (props object) k of
              None \<Rightarrow> False
            | Some c \<Rightarrow> if isObject c then leaf c path u else path = [] \<and> u = c)"
proof
  assume "leaf object (k # path) u"
  then show "case map_of (props object) k of
      None \<Rightarrow> False | Some c \<Rightarrow> if isObject c then leaf c path u else path = [] \<and> u = c"
    using assms by (cases rule: leaf.cases) simp_all
next
  assume r: "case map_of (props object) k of
      None \<Rightarrow> False | Some c \<Rightarrow> if isObject c then leaf c path u else path = [] \<and> u = c"
  then obtain c where c: "map_of (props object) k = Some c"
    by (cases "map_of (props object) k") simp_all
  then have mem: "(k, c) \<in> set (props object)"
    by (rule map_of_SomeD)
  show "leaf object (k # path) u"
  proof (cases "isObject c")
    case True
    with r c have "leaf c path u" by simp
    with mem True show ?thesis by (rule leaf.below)
  next
    case False
    with r c have "path = []" and "u = c" by simp_all
    with mem False show ?thesis by (simp add: leaf.here)
  qed
qed

lemma leaf_not_Nil [simp]: "\<not> leaf object [] u"
  by (auto elim: leaf.cases)

lemma restorable_entry:
  assumes "restorable sep (Obj xs)" and "(k, v) \<in> set xs"
  shows "map_of xs k = Some v" and "clean_key sep k"
    and "isObject v \<Longrightarrow> restorable sep v \<and> props v \<noteq> []"
  using assms by auto

lemma nonempty_has_leaf:
  "restorable sep object \<Longrightarrow> isObject object \<Longrightarrow> props object \<noteq> [] \<Longrightarrow> \<exists>path u. leaf object path u"
proof (induction object rule: measure_induct_rule [of size])
  case (less object)
  from less.prems(1,2) obtain xs where o: "object = Obj xs"
    by (cases object) simp_all
  with less.prems(3) obtain k v rest where xs: "xs = (k, v) # rest"
    by (cases xs) auto
  have mem: "(k, v) \<in> set (props object)"
    by (simp add: o xs)
  show ?case
  proof (cases "isObject v")
    case False
    with mem have "leaf object [k] v" by (rule leaf.here)
    then show ?thesis by blast
  next
    case True
    have "restorable sep v \<and> props v \<noteq> []"
      using less.prems(1) True by (simp add: o xs)
    moreover have "size v < size object"
      using mem by (rule size_props_less)
    ultimately obtain path u where "leaf v path u"
      using less.IH True by blast
    with mem True have "leaf object (k # path) u" by (rule leaf.below)
    then show ?thesis by blast
  qed
qed

lemma isEqual_primitive: "\<not> isObject v \<Longrightarrow> isEqual v v"
  by (cases v) simp_all

lemma part_of_isEqual:
  "restorable sep x \<Longrightarrow> part_of t x \<Longrightarrow> (\<forall>path u. leaf x path u \<longrightarrow> leaf t path u) \<Longrightarrow> isEqual t x"
proof (induction x arbitrary: t rule: measure_induct_rule [of size])
  case (less x)
  from part_of_Obj [OF less.prems(2)] obtain ps xs where t: "t = Obj ps" and x: "x = Obj xs"
    by blast
  have dps: "distinct (map fst ps)"
    using less.prems(2) by (simp add: t x)
  have r: "restorable sep (Obj xs)"
    using less.prems(1) by (simp add: x)
  have sub: "has_key k xs" if "has_key k ps" for k
  proof -
    from that obtain c where "map_of ps k = Some c"
      by (auto simp: has_key_map_of)
    from part_of_entry [OF less.prems(2) [unfolded t x] this] show ?thesis
      by (auto simp: has_key_map_of)
  qed
  have sup: "has_key k ps" if "has_key k xs" for k
  proof -
    from that obtain v where m: "map_of xs k = Some v"
      by (auto simp: has_key_map_of)
    then have mem: "(k, v) \<in> set (props x)"
      by (auto simp: x dest: map_of_SomeD)
    have "\<exists>path u. leaf x (k # path) u"
    proof (cases "isObject v")
      case False
      with mem have "leaf x [k] v" by (rule leaf.here)
      then show ?thesis by blast
    next
      case True
      have "restorable sep v \<and> props v \<noteq> []"
        using restorable_entry(3) [OF r] mem True by (simp add: x)
      with True obtain path u where "leaf v path u"
        using nonempty_has_leaf by blast
      with mem True have "leaf x (k # path) u" by (rule leaf.below)
      then show ?thesis by blast
    qed
    then obtain path u where "leaf t (k # path) u"
      using less.prems(3) by blast
    from leaf_head [OF this] show ?thesis
      by (simp add: t)
  qed
  have keys: "set (map fst ps) = set (map fst xs)"
  proof (rule set_eqI)
    fix k
    show "k \<in> set (map fst ps) \<longleftrightarrow> k \<in> set (map fst xs)"
      using sub [of k] sup [of k] by auto
  qed
  have "case map_of xs (fst p) of None \<Rightarrow> False | Some w \<Rightarrow> isEqual (snd p) w" if "p \<in> set ps" for p
  proof -
    obtain k c where p: "p = (k, c)" by (cases p)
    have mc: "map_of ps k = Some c"
      using that dps by (simp add: p)
    from part_of_entry [OF less.prems(2) [unfolded t x] mc] obtain v where v: "map_of xs k = Some v"
      and pv: "if isObject v then props c \<noteq> [] \<and> part_of c v \<and> isObject c else c = v"
      by blast
    have mem: "(k, v) \<in> set (props x)"
      using v by (auto simp: x dest: map_of_SomeD)
    have "isEqual c v"
    proof (cases "isObject v")
      case False
      with pv show ?thesis by (simp add: isEqual_primitive)
    next
      case True
      with pv have pc: "part_of c v" and oc: "isObject c" by simp_all
      have "restorable sep v"
        using restorable_entry(3) [OF r] mem True by (simp add: x)
      moreover have "size v < size x"
        using mem by (rule size_props_less)
      moreover have "\<forall>path u. leaf v path u \<longrightarrow> leaf c path u"
      proof (intro allI impI)
        fix path u
        assume "leaf v path u"
        with mem True have "leaf x (k # path) u" by (rule leaf.below)
        with less.prems(3) have "leaf t (k # path) u" by blast
        then show "leaf c path u"
          using leaf_map_of [of t k path u] dps mc oc by (simp add: t)
      qed
      ultimately show ?thesis
        using less.IH pc by blast
    qed
    with v show ?thesis by (simp add: p)
  qed
  with keys show ?case
    by (simp add: t x)
qed

lemma leaf_obj_set:
  assumes "distinct (map fst ps)"
  shows "leaf (Obj (obj_set k c ps)) (k' # q) u \<longleftrightarrow>
           (if k' = k then (if isObject c then leaf c q u else q = [] \<and> u = c)
            else leaf (Obj ps) (k' # q) u)"
proof -
  have "distinct (map fst (props (Obj (obj_set k c ps))))"
    using assms by (simp add: distinct_obj_set)
  from leaf_map_of [OF this, of k' q u] leaf_map_of [of "Obj ps" k' q u] assms
  show ?thesis
    by (simp add: map_of_obj_set)
qed

lemma isObject_truthy: "isObject c \<Longrightarrow> truthy c"
  by (cases c) simp_all

lemma leaf_has_props: "leaf t path u \<Longrightarrow> props t \<noteq> []"
  by (auto dest: leaf_head)

lemma part_of_obj_set:
  assumes "part_of (Obj ps) (Obj xs)" and "map_of xs k = Some v"
    and "if isObject v then props c \<noteq> [] \<and> part_of c v else c = v"
  shows "part_of (Obj (obj_set k c ps)) (Obj xs)"
proof -
  have d: "distinct (map fst ps)"
    using assms(1) by simp
  then have d': "distinct (map fst (obj_set k c ps))"
    by (rule distinct_obj_set)
  have "case map_of xs (fst p) of
      None \<Rightarrow> False
    | Some v \<Rightarrow> if isObject v then props (snd p) \<noteq> [] \<and> part_of (snd p) v else snd p = v"
    if "p \<in> set (obj_set k c ps)" for p
  proof -
    obtain k' c' where p: "p = (k', c')" by (cases p)
    from that d' have m: "map_of (obj_set k c ps) k' = Some c'"
      by (simp add: p)
    show ?thesis
    proof (cases "k' = k")
      case True
      with m have "c' = c" by (simp add: map_of_obj_set)
      with True assms(2,3) show ?thesis by (simp add: p)
    next
      case False
      with m have "map_of ps k' = Some c'" by (simp add: map_of_obj_set)
      from part_of_entry [OF assms(1) this] show ?thesis
        by (auto simp: p)
    qed
  qed
  with d' show ?thesis by simp
qed

text \<open>
  One key of the flattened form: its value, a primitive of the Structure at the path of
  the key, is put at that path in \<open>nested\<close>, which stays a part of the Structure.
\<close>

lemma assign_parts_part_of:
  assumes "leaf x path w"
  shows "restorable sep x \<Longrightarrow> part_of t x \<Longrightarrow> \<not> leaf t path w \<Longrightarrow>
     \<exists>t'. assign_parts strict path w t = Inr t' \<and> part_of t' x \<and>
       (\<forall>q u. leaf t' q u \<longleftrightarrow> (q = path \<and> u = w) \<or> leaf t q u)"
  using assms
proof (induction arbitrary: t rule: leaf.induct)
  case (here k v object)
  from part_of_Obj [OF here.prems(2)] obtain ps xs where t: "t = Obj ps" and x: "object = Obj xs"
    by blast
  have mem: "(k, v) \<in> set xs"
    using here.hyps(1) by (simp add: x)
  have r: "restorable sep (Obj xs)"
    using here.prems(1) by (simp add: x)
  have mx: "map_of xs k = Some v" and "clean_key sep k"
    using restorable_entry(1,2) [OF r mem] by simp_all
  then have k: "k \<noteq> []"
    by (simp add: clean_key_def)
  have p: "part_of (Obj ps) (Obj xs)"
    using here.prems(2) by (simp add: t x)
  then have d: "distinct (map fst ps)"
    by simp
  have fresh: "map_of ps k = None"
  proof (rule ccontr)
    assume "map_of ps k \<noteq> None"
    then obtain c where c: "map_of ps k = Some c" by auto
    from part_of_entry [OF p c] mx here.hyps(2) have "c = v" by simp
    with c here.hyps(2) have "leaf (Obj ps) [k] v"
      using leaf_map_of [of "Obj ps" k "[]" v] d by simp
    with here.prems(3) show False by (simp add: t)
  qed
  have 1: "assign_parts strict [k] v t = Inr (Obj (obj_set k v ps))"
    using k by (simp add: t)
  have "if isObject v then props v \<noteq> [] \<and> part_of v v else v = v"
    using here.hyps(2) by simp
  from part_of_obj_set [OF p mx this] have 2: "part_of (Obj (obj_set k v ps)) object"
    by (simp only: x)
  have 3: "leaf (Obj (obj_set k v ps)) q u \<longleftrightarrow> (q = [k] \<and> u = v) \<or> leaf t q u" for q u
  proof (cases q)
    case Nil
    then show ?thesis by simp
  next
    case (Cons k' q')
    show ?thesis
    proof (cases "k' = k")
      case True
      have "\<not> leaf (Obj ps) (k # q') u"
        using leaf_map_of [of "Obj ps" k q' u] d fresh by simp
      then show ?thesis
        using here.hyps(2) by (auto simp: Cons True t leaf_obj_set [OF d])
    next
      case False
      then show ?thesis
        by (simp add: Cons t leaf_obj_set [OF d])
    qed
  qed
  from 1 2 3 show ?case by blast
next
  case (below k v object path w)
  from part_of_Obj [OF below.prems(2)] obtain ps xs where t: "t = Obj ps" and x: "object = Obj xs"
    by blast
  have mem: "(k, v) \<in> set xs"
    using below.hyps(1) by (simp add: x)
  have r: "restorable sep (Obj xs)"
    using below.prems(1) by (simp add: x)
  have mx: "map_of xs k = Some v" and "clean_key sep k"
    using restorable_entry(1,2) [OF r mem] by simp_all
  then have k: "k \<noteq> []"
    by (simp add: clean_key_def)
  have rv: "restorable sep v"
    using restorable_entry(3) [OF r mem below.hyps(2)] by simp
  have path: "path \<noteq> []"
    using leaf_head [OF below.hyps(3)] by auto
  have p: "part_of (Obj ps) (Obj xs)"
    using below.prems(2) by (simp add: t x)
  then have d: "distinct (map fst ps)"
    by simp
  define child where "child = (case map_of ps k of None \<Rightarrow> Obj [] | Some c \<Rightarrow> if truthy c then c else Obj [])"
  have child: "part_of child v \<and> (\<forall>q u. leaf child q u \<longleftrightarrow> leaf t (k # q) u)"
  proof (cases "map_of ps k")
    case None
    then have "child = Obj []" by (simp add: child_def)
    moreover obtain vs where "v = Obj vs"
      using rv below.hyps(2) by (cases v) simp_all
    moreover have "\<not> leaf t (k # q) u" for q u
      using leaf_map_of [of "Obj ps" k q u] d None by (simp add: t)
    ultimately show ?thesis by simp
  next
    case (Some c)
    from part_of_entry [OF p Some] mx below.hyps(2)
    have c: "part_of c v" "isObject c" by simp_all
    then have "child = c"
      by (simp add: child_def Some isObject_truthy)
    moreover have "leaf t (k # q) u \<longleftrightarrow> leaf c q u" for q u
      using leaf_map_of [of "Obj ps" k q u] d Some c(2) by (simp add: t)
    ultimately show ?thesis
      using c(1) by simp
  qed
  then have "\<not> leaf child path w"
    using below.prems(3) by simp
  from below.IH [OF rv _ this] child obtain t'' where a: "assign_parts strict path w child = Inr t''"
    and pt: "part_of t'' v" and lt: "\<forall>q u. leaf t'' q u \<longleftrightarrow> (q = path \<and> u = w) \<or> leaf child q u"
    by blast
  have "leaf t'' path w"
    using lt by blast
  then have ne: "props t'' \<noteq> []"
    by (rule leaf_has_props)
  have ot: "isObject t''"
    using part_of_Obj [OF pt] by auto
  have 1: "assign_parts strict (k # path) w t = Inr (Obj (obj_set k t'' ps))"
    using k path a by (simp add: t child_def)
  have "if isObject v then props t'' \<noteq> [] \<and> part_of t'' v else t'' = v"
    using below.hyps(2) ne pt by simp
  from part_of_obj_set [OF p mx this] have 2: "part_of (Obj (obj_set k t'' ps)) object"
    by (simp only: x)
  have 3: "leaf (Obj (obj_set k t'' ps)) q u \<longleftrightarrow> (q = k # path \<and> u = w) \<or> leaf t q u" for q u
  proof (cases q)
    case Nil
    then show ?thesis by simp
  next
    case (Cons k' q')
    show ?thesis
    proof (cases "k' = k")
      case True
      have "leaf t'' q' u \<longleftrightarrow> (q' = path \<and> u = w) \<or> leaf t (k # q') u"
        using lt child by simp
      then show ?thesis
        using ot by (simp add: Cons True leaf_obj_set [OF d])
    next
      case False
      then show ?thesis
        by (simp add: Cons t leaf_obj_set [OF d])
    qed
  qed
  from 1 2 3 show ?case by blast
qed

lemma unflatten_loop_part_of:
  assumes "sep \<noteq> []" and "restorable sep x" and "\<not> has_key ''hasOwnProperty'' (props flatObject)"
  shows "distinct (map fst flat) \<Longrightarrow>
     \<forall>e \<in> set flat. \<exists>path. leaf x path (snd e) \<and> fst e = join_sep sep path \<Longrightarrow>
     part_of t x \<Longrightarrow>
     \<forall>e \<in> set flat. \<not> leaf t (split_str sep (fst e)) (snd e) \<Longrightarrow>
     \<exists>t'. unflatten_loop strict sep flatObject flat t = Inr t' \<and> part_of t' x \<and>
       (\<forall>q u. leaf t' q u \<longleftrightarrow>
          leaf t q u \<or> (\<exists>e \<in> set flat. q = split_str sep (fst e) \<and> u = snd e))"
proof (induction flat arbitrary: t)
  case Nil
  then show ?case by simp
next
  case (Cons e flat)
  obtain key w where e: "e = (key, w)" by (cases e)
  from Cons.prems(2) obtain path where l: "leaf x path w" and key: "key = join_sep sep path"
    by (auto simp: e)
  have ox: "isObject x"
    using part_of_Obj [OF Cons.prems(3)] by auto
  have cp: "path \<noteq> []" "\<forall>s \<in> set path. clean_key sep s"
    using leaf_restorable [OF l assms(2) ox] by simp_all
  have sp: "split_str sep key = path"
    unfolding key using assms(1) cp(2,1) by (rule split_join_sep)
  have "\<not> leaf t path w"
    using Cons.prems(4) by (simp add: e sp)
  from assign_parts_part_of [OF l assms(2) Cons.prems(3) this, of strict]
  obtain t1 where a: "assign_parts strict path w t = Inr t1" and p1: "part_of t1 x"
    and l1: "\<forall>q u. leaf t1 q u \<longleftrightarrow> (q = path \<and> u = w) \<or> leaf t q u"
    by blast
  have other: "split_str sep (fst e') \<noteq> path" if "e' \<in> set flat" for e'
  proof
    assume eq: "split_str sep (fst e') = path"
    from Cons.prems(2) that obtain path' where l': "leaf x path' (snd e')"
      and key': "fst e' = join_sep sep path'"
      by auto
    have "path' \<noteq> []" "\<forall>s \<in> set path'. clean_key sep s"
      using leaf_restorable [OF l' assms(2) ox] by simp_all
    with assms(1) have "split_str sep (join_sep sep path') = path'"
      by (intro split_join_sep)
    with eq key' have "path' = path" by simp
    with key key' have "fst e' = key" by simp
    moreover have "key \<notin> fst ` set flat"
      using Cons.prems(1) by (simp add: e del: has_key_image)
    ultimately show False
      using that by (metis imageI)
  qed
  have "\<forall>e' \<in> set flat. \<not> leaf t1 (split_str sep (fst e')) (snd e')"
  proof
    fix e'
    assume m: "e' \<in> set flat"
    with Cons.prems(4) have "\<not> leaf t (split_str sep (fst e')) (snd e')" by simp
    with other [OF m] l1 show "\<not> leaf t1 (split_str sep (fst e')) (snd e')" by simp
  qed
  moreover have "distinct (map fst flat)"
    using Cons.prems(1) by simp
  moreover have "\<forall>e \<in> set flat. \<exists>path. leaf x path (snd e) \<and> fst e = join_sep sep path"
    using Cons.prems(2) by simp
  ultimately obtain t' where u: "unflatten_loop strict sep flatObject flat t1 = Inr t'" and p': "part_of t' x"
    and l': "\<forall>q u. leaf t' q u \<longleftrightarrow>
      leaf t1 q u \<or> (\<exists>e \<in> set flat. q = split_str sep (fst e) \<and> u = snd e)"
    using Cons.IH [of t1] p1 by blast
  have "unflatten_loop strict sep flatObject (e # flat) t = Inr t'"
    using a u assms(3) by (simp add: e sp)
  moreover have "leaf t' q u \<longleftrightarrow>
      leaf t q u \<or> (\<exists>e' \<in> set (e # flat). q = split_str sep (fst e') \<and> u = snd e')" for q u
    using l' l1 by (auto simp: e sp)
  ultimately show ?case
    using p' by blast
qed


text \<open>
  C1, as stated, fails: an empty Structure under a key has no entry in the flattened form
  and does not come back. \<^verbatim>\<open>unflatten(flatten({a: {}}))\<close> is \<^verbatim>\<open>{}\<close>; the key \<^verbatim>\<open>a\<close> does not
  contain the separator. Nor does an array come back (\<^verbatim>\<open>{a: [1]}\<close> gives \<^verbatim>\<open>{a: {"0": 1}}\<close>), nor
  an empty key (\<^verbatim>\<open>{"": 1}\<close> gives \<^verbatim>\<open>{}\<close>), nor, with the separator \<^verbatim>\<open>aa\<close>, the key \<^verbatim>\<open>a\<close>, which
  does not contain it (\<^verbatim>\<open>{a: {b: 1}}\<close> gives \<^verbatim>\<open>{ab: 1}\<close>).
\<close>

theorem roundtrip_empty_structure_counterexample:
  "\<not> occurs ''.'' ''a''
   \<and> roundtrip True ''.'' (Obj [(''a'', Obj [])]) = Inr (Obj [])
   \<and> roundtrip False ''.'' (Obj [(''a'', Obj [])]) = Inr (Obj [])
   \<and> \<not> isEqual (Obj []) (Obj [(''a'', Obj [])])
   \<and> Obj [] \<noteq> Obj [(''a'', Obj [])]
   \<and> roundtrip True ''.'' (Obj [(''a'', Arr [(''0'', Num 1)])]) = Inr (Obj [(''a'', Obj [(''0'', Num 1)])])
   \<and> \<not> occurs ''.'' []
   \<and> roundtrip True ''.'' (Obj [([], Num 1)]) = Inr (Obj [])
   \<and> \<not> occurs ''aa'' ''a'' \<and> \<not> occurs ''aa'' ''b''
   \<and> roundtrip True ''aa'' (Obj [(''a'', Obj [(''b'', Num 1)])]) = Inr (Obj [(''ab'', Num 1)])"
  by (simp add: roundtrip_def flatten_Obj flatten_Arr flatten_loop_Cons unflatten_def
      split_str_def obj_set_eval)

text \<open>
  C1, amended: take a separator that is not a part of the name of a member of
  \<^verbatim>\<open>Object.prototype\<close> (the default \<^verbatim>\<open>.\<close> is none), and a Structure in which, at every depth,
  no key is empty, has the separator beginning inside it (for a separator of one
  character: no key contains it) or is the name of a member of \<^verbatim>\<open>Object.prototype\<close>
  (\<^verbatim>\<open>constructor\<close>, \<^verbatim>\<open>hasOwnProperty\<close>, \<^verbatim>\<open>toString\<close>, \<^verbatim>\<open>__proto__\<close> and the others), and every
  value is a primitive or a Structure that is not empty (no empty Structure and no array
  at any depth). Then \<open>unflatten\<close> of \<open>flatten\<close>, with the same separator, returns a Structure
  equal to the first as data: the same keys with equal values at every depth.
\<close>

theorem roundtrip_restores:
  assumes "safe_sep sep" and "restorable sep (Obj xs)" and "all_keys plain_key (Obj xs)"
  shows "case roundtrip strict sep (Obj xs) of Inl e \<Rightarrow> False | Inr y \<Rightarrow> isEqual y (Obj xs)"
proof -
  have sep: "sep \<noteq> []"
    using assms(1) by (auto simp: safe_sep_def object_prototype_names_def)
  define flat where "flat = flat_loop sep xs []"
  have f: "flatten sep (Obj xs) = Inr flat"
    unfolding flat_def using flatten_plain [OF assms(1) _ assms(3)] by simp
  have d: "distinct (map fst flat)"
    unfolding flat_def by (rule distinct_flat_loop) simp
  have content: "(key, w) \<in> set flat \<longleftrightarrow> (\<exists>path. leaf (Obj xs) path w \<and> key = join_sep sep path)"
    for key w
    unfolding flat_def
    using set_flat_loop [OF sep restorable_clean_keys [OF assms(2)], of "[]" key w] by simp
  have own: "\<not> has_key ''hasOwnProperty'' (props (Obj flat))"
    using has_key_flat_loop [of "''hasOwnProperty''" sep xs "[]"]
      plain_key_hasOwnProperty [OF assms(3)] safe_sep_hasOwnProperty [OF assms(1)]
    by (auto simp: flat_def)
  have 1: "\<forall>e \<in> set flat. \<exists>path. leaf (Obj xs) path (snd e) \<and> fst e = join_sep sep path"
  proof
    fix e
    assume "e \<in> set flat"
    then have "(fst e, snd e) \<in> set flat" by simp
    then show "\<exists>path. leaf (Obj xs) path (snd e) \<and> fst e = join_sep sep path"
      by (simp only: content)
  qed
  have 2: "part_of (Obj []) (Obj xs)"
    by simp
  have 3: "\<forall>e \<in> set flat. \<not> leaf (Obj []) (split_str sep (fst e)) (snd e)"
    by simp
  from unflatten_loop_part_of [OF sep assms(2) own d 1 2 3, of strict]
  obtain y where u: "unflatten_loop strict sep (Obj flat) flat (Obj []) = Inr y" and p: "part_of y (Obj xs)"
    and l: "\<forall>q u. leaf y q u \<longleftrightarrow> (\<exists>e \<in> set flat. q = split_str sep (fst e) \<and> u = snd e)"
    by auto
  have "\<forall>path u. leaf (Obj xs) path u \<longrightarrow> leaf y path u"
  proof (intro allI impI)
    fix path u
    assume lx: "leaf (Obj xs) path u"
    then have m: "(join_sep sep path, u) \<in> set flat"
      using content by blast
    have "path \<noteq> []" "\<forall>s \<in> set path. clean_key sep s"
      using leaf_restorable [OF lx assms(2)] by simp_all
    with sep have "split_str sep (join_sep sep path) = path"
      by (intro split_join_sep)
    with m have "\<exists>e \<in> set flat. path = split_str sep (fst e) \<and> u = snd e"
      by force
    with l show "leaf y path u" by simp
  qed
  with assms(2) p have "isEqual y (Obj xs)"
    by (rule part_of_isEqual)
  then show ?thesis
    by (simp add: roundtrip_def f unflatten_def u)
qed

theorem roundtrip_restores_witness:
  "safe_sep ''.''
   \<and> restorable ''.'' (Obj [(''a'', Obj [(''b'', Num 1), (''c'', Num 2)]), (''d'', Null)])
   \<and> all_keys plain_key (Obj [(''a'', Obj [(''b'', Num 1), (''c'', Num 2)]), (''d'', Null)])
   \<and> roundtrip True ''.'' (Obj [(''a'', Obj [(''b'', Num 1), (''c'', Num 2)]), (''d'', Null)])
       = Inr (Obj [(''a'', Obj [(''b'', Num 1), (''c'', Num 2)]), (''d'', Null)])
   \<and> isEqual (Obj [(''a'', Obj [(''b'', Num 1), (''c'', Num 2)]), (''d'', Null)])
       (Obj [(''a'', Obj [(''b'', Num 1), (''c'', Num 2)]), (''d'', Null)])"
proof -
  let ?x = "[(''a'', Obj [(''b'', Num 1), (''c'', Num 2)]), (''d'', Null)]"
  have s: "safe_sep ''.''"
    by (simp add: safe_sep_def object_prototype_names_def)
  have r: "restorable ''.'' (Obj ?x)"
    by (simp add: clean_key_def)
  have k: "all_keys plain_key (Obj ?x)"
    by (simp add: plain_key_def object_prototype_names_def)
  have t: "roundtrip True ''.'' (Obj ?x) = Inr (Obj ?x)"
    by (simp add: roundtrip_def flatten_Obj flatten_loop_Cons unflatten_def split_str_def obj_set_eval)
  show ?thesis
    using s r k t roundtrip_restores [OF s r k, of True]
    by simp
qed

end
